theory Spec2Isabelle
  imports Main "HOL-Library.Multiset" "HOL-Library.Char_ord" "HOL-Library.List_Lexorder"
begin

section \<open>Data model (LogEntry.h, EventDetector.h)\<close>

text \<open>
  \<^verbatim>\<open>enum class LoginStatus { SUCCESS, FAILED, UNKNOWN }\<close> and
  \<^verbatim>\<open>enum class SuspiciousEventType\<close>.
\<close>

datatype LoginStatus = SUCCESS | FAILED | UNKNOWN

datatype SuspiciousEventType =
  MULTIPLE_FAILED_LOGINS | LOGIN_OUTSIDE_BUSINESS_HOURS | MULTIPLE_IP_ADDRESSES

text \<open>
  A \<^verbatim>\<open>std::chrono::system_clock::time_point\<close> is modelled as the number of whole
  seconds since the epoch: every time point of the program is built by
  \<^verbatim>\<open>system_clock::from_time_t\<close> (LogParser::parseTimestamp), so it is a whole number
  of seconds. The clock itself holds a time point as a signed 64-bit count of
  nanoseconds (\<open>time_since_epoch_count\<close> below), and the arithmetic of
  \<open>isWithinTimeWindow\<close> is done on those counts.
\<close>

type_synonym time_point = int

record LogEntry =
  timestamp :: time_point
  username :: string
  ip_address :: string
  status :: LoginStatus

text \<open>
  \<^verbatim>\<open>struct SuspiciousEvent\<close>. Its fields \<^verbatim>\<open>type\<close> and \<^verbatim>\<open>username\<close> are named
  \<open>ev_type\<close> and \<open>ev_username\<close> here, since \<open>username\<close> is the field of \<open>LogEntry\<close>.
\<close>

record SuspiciousEvent =
  ev_type :: SuspiciousEventType
  ev_username :: string
  ip_addresses :: "string list"
  first_occurrence :: time_point
  last_occurrence :: time_point
  event_count :: int
  description :: string

text \<open>
  The parameterized constructor of \<^verbatim>\<open>SuspiciousEvent\<close>: the single address becomes a
  one-element vector and the description starts empty.
\<close>

definition SuspiciousEvent_ctor ::
  "SuspiciousEventType \<Rightarrow> string \<Rightarrow> string \<Rightarrow> time_point \<Rightarrow> time_point \<Rightarrow> int \<Rightarrow> SuspiciousEvent"
where
  "SuspiciousEvent_ctor evt_type user ip first_time last_time cnt =
     \<lparr>ev_type = evt_type, ev_username = user, ip_addresses = [ip],
      first_occurrence = first_time, last_occurrence = last_time,
      event_count = cnt, description = []\<rparr>"

text \<open>
  The private configuration members of \<^verbatim>\<open>class EventDetector\<close> (the trailing underscore
  of the C++ names is dropped). They are C++ \<^verbatim>\<open>int\<close>s that the detectors only compare,
  never compute with. The counters \<^verbatim>\<open>count\<close> and \<^verbatim>\<open>event_count\<close> are \<^verbatim>\<open>int\<close>s as
  well; they count entries of the input vector and are modelled without a bound.
\<close>

record EventDetector =
  failed_login_threshold :: int
  time_window_minutes :: int
  business_hour_start :: int
  business_hour_end :: int

text \<open>The default constructor: threshold 5, window 10 minutes, business hours 8 to 18.\<close>

definition EventDetector_default :: EventDetector where
  "EventDetector_default =
     \<lparr>failed_login_threshold = 5, time_window_minutes = 10,
      business_hour_start = 8, business_hour_end = 18\<rparr>"

text \<open>
  The range checks of \<^verbatim>\<open>ConfigManager::validateConfiguration\<close> on the four values the
  detector receives, in the order of the source (its two further checks are on the file
  paths, which the detector does not receive).
\<close>

definition validateConfiguration :: "EventDetector \<Rightarrow> bool" where
  "validateConfiguration d =
     (\<not> failed_login_threshold d \<le> 0 \<and> \<not> time_window_minutes d \<le> 0 \<and>
      \<not> (business_hour_start d < 0 \<or> business_hour_start d > 23) \<and>
      \<not> (business_hour_end d < 0 \<or> business_hour_end d > 23) \<and>
      \<not> business_hour_start d \<ge> business_hour_end d)"

section \<open>Private helpers of EventDetector\<close>

text \<open>
  The tick of \<^verbatim>\<open>system_clock\<close> in the default build (libstdc++) is one nanosecond and
  its count is an \<^verbatim>\<open>int64_t\<close>; \<^verbatim>\<open>from_time_t\<close> multiplies the seconds by \<open>10\<^sup>9\<close>.
\<close>

definition time_since_epoch_count :: "time_point \<Rightarrow> int" where
  "time_since_epoch_count t = t * 1000000000"

text \<open>
  The value of a 64-bit signed operation whose exact result is \<open>x\<close>: the result wraps
  around modulo \<open>2\<^sup>6\<^sup>4\<close> into \<open>[-2\<^sup>6\<^sup>3, 2\<^sup>6\<^sup>3)\<close>. (Signed overflow is undefined in C++;
  the compiled subtraction wraps.)
\<close>

definition int64_wrap :: "int \<Rightarrow> int" where
  "int64_wrap x = (x + 9223372036854775808) mod 18446744073709551616 - 9223372036854775808"

text \<open>
  \<^verbatim>\<open>time1 - time2\<close> on two time points: the difference of their counts, a duration in
  nanoseconds held in an \<^verbatim>\<open>int64_t\<close>.
\<close>

definition time_point_minus :: "time_point \<Rightarrow> time_point \<Rightarrow> int" where
  "time_point_minus time1 time2 =
     int64_wrap (time_since_epoch_count time1 - time_since_epoch_count time2)"

text \<open>
  \<^verbatim>\<open>std::chrono::duration_cast<std::chrono::minutes>\<close> on a duration in nanoseconds:
  integer division by 60000000000 that truncates toward zero, as C++ integer division
  does.
\<close>

definition duration_cast_minutes :: "int \<Rightarrow> int" where
  "duration_cast_minutes ns =
     (if 0 \<le> ns then ns div 60000000000 else - ((- ns) div 60000000000))"

definition isWithinTimeWindow :: "EventDetector \<Rightarrow> time_point \<Rightarrow> time_point \<Rightarrow> bool" where
  "isWithinTimeWindow d time1 time2 =
     (let duration = (if time1 > time2 then time_point_minus time1 time2
                      else time_point_minus time2 time1);
          minutes = duration_cast_minutes duration
      in minutes \<le> time_window_minutes d)"

section \<open>Library types used by the detectors\<close>

text \<open>
  \<^verbatim>\<open>std::vector::operator[]\<close> has undefined behaviour beyond \<^verbatim>\<open>size()\<close>. The model
  makes such a read a fault, so that a detector that returns \<open>Inr\<close> has made no
  out-of-range read. Reads that stand directly under their own loop guard
  \<^verbatim>\<open>j < v.size()\<close> are written \<open>xs ! j\<close>.
\<close>

datatype fault = OutOfRange

definition vector_at :: "'a list \<Rightarrow> nat \<Rightarrow> fault + 'a" where
  "vector_at xs i = (if i < length xs then Inr (xs ! i) else Inl OutOfRange)"

text \<open>\<^verbatim>\<open>std::to_string(int)\<close>: the decimal digits, with a minus sign when negative.\<close>

definition digit_char :: "nat \<Rightarrow> char" where
  "digit_char n = char_of (48 + n)"

fun to_string_nat :: "nat \<Rightarrow> string" where
  "to_string_nat n =
     (if n < 10 then [digit_char n] else to_string_nat (n div 10) @ [digit_char (n mod 10)])"

declare to_string_nat.simps [simp del]

definition to_string :: "int \<Rightarrow> string" where
  "to_string i = (if i < 0 then CHR ''-'' # to_string_nat (nat (- i)) else to_string_nat (nat i))"

text \<open>
  \<^verbatim>\<open>std::map<std::string, std::vector<LogEntry>>\<close>: an association list kept in
  ascending key order, the order in which the range-for visits it. \<open>map_push_back k e m\<close>
  is \<^verbatim>\<open>m[k].push_back(e)\<close>: \<^verbatim>\<open>operator[]\<close> inserts an empty vector for a new key.
  Strings compare lexicographically by character code, as \<^verbatim>\<open>std::string\<close> does.
\<close>

type_synonym user_map = "(string \<times> LogEntry list) list"

fun map_push_back :: "string \<Rightarrow> LogEntry \<Rightarrow> user_map \<Rightarrow> user_map" where
  "map_push_back k e [] = [(k, [e])]"
| "map_push_back k e ((k', es) # m) =
     (if k = k' then (k', es @ [e]) # m
      else if k < k' then (k, [e]) # (k', es) # m
      else (k', es) # map_push_back k e m)"

text \<open>
  \<^verbatim>\<open>std::set<std::string>\<close>: a strictly ascending list; \<open>set_insert\<close> is
  \<^verbatim>\<open>insert\<close>, which leaves the set unchanged when the element is present, and
  \<^verbatim>\<open>size()\<close> is the length of the list.
\<close>

fun set_insert :: "string \<Rightarrow> string list \<Rightarrow> string list" where
  "set_insert x [] = [x]"
| "set_insert x (y # ys) =
     (if x = y then y # ys
      else if x < y then x # y # ys
      else y # set_insert x ys)"

text \<open>
  \<^verbatim>\<open>std::sort\<close> with the comparator \<^verbatim>\<open>a.timestamp < b.timestamp\<close> is a parameter
  \<open>std_sort\<close> of the detectors: the standard fixes that its result is a permutation of
  its input in ascending timestamp order, and leaves the order of entries with equal
  timestamps open.
\<close>

definition sorts_by_timestamp :: "(LogEntry list \<Rightarrow> LogEntry list) \<Rightarrow> bool" where
  "sorts_by_timestamp std_sort =
     (\<forall>xs. mset (std_sort xs) = mset xs \<and> sorted (map timestamp (std_sort xs)))"

text \<open>
  \<^verbatim>\<open>getHourOfDay\<close> reads the hour of \<^verbatim>\<open>std::localtime\<close>, which depends on the time zone
  of the process: the function \<open>tm_hour\<close> from a time point to its local hour is a
  parameter. (\<^verbatim>\<open>std::localtime\<close> returns a null pointer only for a year that does not
  fit an \<^verbatim>\<open>int\<close>, which no \<^verbatim>\<open>system_clock\<close> time point reaches.)
\<close>

definition getHourOfDay :: "(time_point \<Rightarrow> int) \<Rightarrow> time_point \<Rightarrow> int" where
  "getHourOfDay tm_hour ts = tm_hour ts"

section \<open>detectMultipleFailedLogins\<close>

text \<open>
  Step 1 of both grouping detectors: the entries of one status, grouped by user name in
  input order.
\<close>

fun group_by_user :: "LoginStatus \<Rightarrow> LogEntry list \<Rightarrow> user_map \<Rightarrow> user_map" where
  "group_by_user st [] m = m"
| "group_by_user st (entry # entries) m =
     (if status entry = st
      then group_by_user st entries (map_push_back (username entry) entry m)
      else group_by_user st entries m)"

text \<open>
  The inner loop \<^verbatim>\<open>for (size_t j = i + 1; j < size; ++j)\<close>: it counts the entries
  within the window of \<open>window_start\<close> and stops at the first that is not.
\<close>

function scan_failed ::
  "EventDetector \<Rightarrow> LogEntry list \<Rightarrow> LogEntry \<Rightarrow> nat \<Rightarrow> int \<Rightarrow> nat \<Rightarrow> int \<times> nat"
where
  "scan_failed d xs window_start j cnt window_end_idx =
     (if j < length xs then
        (if isWithinTimeWindow d (timestamp window_start) (timestamp (xs ! j))
         then scan_failed d xs window_start (j + 1) (cnt + 1) j
         else (cnt, window_end_idx))
      else (cnt, window_end_idx))"
  by pat_completeness auto
termination
  by (relation "measure (\<lambda>(d, xs, window_start, j, cnt, window_end_idx). length xs - j)") auto

declare scan_failed.simps [simp del]

definition failed_event ::
  "EventDetector \<Rightarrow> string \<Rightarrow> LogEntry \<Rightarrow> LogEntry \<Rightarrow> int \<Rightarrow> SuspiciousEvent"
where
  "failed_event d user window_start window_end cnt =
     (SuspiciousEvent_ctor MULTIPLE_FAILED_LOGINS user (ip_address window_start)
        (timestamp window_start) (timestamp window_end) cnt)
     \<lparr>description :=
        ''User '' @ [CHR 0x27] @ user @ [CHR 0x27] @ '' had '' @ to_string cnt @
        '' failed login attempts within '' @ to_string (time_window_minutes d) @
        '' minutes''\<rparr>"

lemma scan_failed_idx:
  "scan_failed d xs ws j cnt w = (cnt', w') \<Longrightarrow> w' = w \<or> (j \<le> w' \<and> w' < length xs)"
proof (induction d xs ws j cnt w rule: scan_failed.induct)
  case (1 d xs ws j cnt w)
  show ?case
  proof (cases "j < length xs \<and> isWithinTimeWindow d (timestamp ws) (timestamp (xs ! j))")
    case True
    then have "scan_failed d xs ws (j + 1) (cnt + 1) j = (cnt', w')"
      using "1.prems" by (simp add: scan_failed.simps [of d xs ws j])
    with True "1.IH" have "w' = j \<or> (j + 1 \<le> w' \<and> w' < length xs)" by blast
    with True show ?thesis by auto
  next
    case False
    then show ?thesis
      using "1.prems" by (auto simp: scan_failed.simps [of d xs ws j] split: if_splits)
  qed
qed

text \<open>
  The outer loop \<^verbatim>\<open>for (size_t i = 0; i < size; ++i)\<close> over one user's sorted failed
  logins. After an event the body sets \<^verbatim>\<open>i = window_end_idx\<close> and the loop header
  increments it, so the next anchor is \<open>window_end_idx + 1\<close>.
\<close>

function failed_loop ::
  "EventDetector \<Rightarrow> string \<Rightarrow> LogEntry list \<Rightarrow> nat \<Rightarrow> SuspiciousEvent list
     \<Rightarrow> fault + SuspiciousEvent list"
where
  "failed_loop d user xs i detected_events =
     (if i < length xs then
        (let window_start = xs ! i in
         case scan_failed d xs window_start (i + 1) 1 i of
           (cnt, window_end_idx) \<Rightarrow>
             if cnt \<ge> failed_login_threshold d then
               (case vector_at xs window_end_idx of
                  Inl f \<Rightarrow> Inl f
                | Inr window_end \<Rightarrow>
                    failed_loop d user xs (window_end_idx + 1)
                      (detected_events @ [failed_event d user window_start window_end cnt]))
             else failed_loop d user xs (i + 1) detected_events)
      else Inr detected_events)"
  by pat_completeness auto
termination failed_loop
  by (relation "measure (\<lambda>(d, user, xs, i, detected_events). length xs - i)")
    (auto dest!: scan_failed_idx [OF sym] simp: vector_at_def split: if_splits)

declare failed_loop.simps [simp del]

text \<open>
  Step 2: the range-for over the map, in key order. Each user's vector is sorted, then
  scanned; \<open>detected_events\<close> is the one result vector all users append to.
\<close>

fun failed_users ::
  "(LogEntry list \<Rightarrow> LogEntry list) \<Rightarrow> EventDetector \<Rightarrow> user_map \<Rightarrow> SuspiciousEvent list
     \<Rightarrow> fault + SuspiciousEvent list"
where
  "failed_users std_sort d [] detected_events = Inr detected_events"
| "failed_users std_sort d ((user, user_failed_logins) # m) detected_events =
     (case failed_loop d user (std_sort user_failed_logins) 0 detected_events of
        Inl f \<Rightarrow> Inl f
      | Inr detected_events' \<Rightarrow> failed_users std_sort d m detected_events')"

definition detectMultipleFailedLogins ::
  "(LogEntry list \<Rightarrow> LogEntry list) \<Rightarrow> EventDetector \<Rightarrow> LogEntry list
     \<Rightarrow> fault + SuspiciousEvent list"
where
  "detectMultipleFailedLogins std_sort d entries =
     failed_users std_sort d (group_by_user FAILED entries []) []"

section \<open>detectLoginsOutsideBusinessHours\<close>

definition outside_hours_event ::
  "EventDetector \<Rightarrow> LogEntry \<Rightarrow> int \<Rightarrow> SuspiciousEvent"
where
  "outside_hours_event d entry hour =
     (SuspiciousEvent_ctor LOGIN_OUTSIDE_BUSINESS_HOURS (username entry) (ip_address entry)
        (timestamp entry) (timestamp entry) 1)
     \<lparr>description :=
        ''User '' @ [CHR 0x27] @ username entry @ [CHR 0x27] @ '' logged in at hour '' @
        to_string hour @ '' (outside business hours: '' @
        to_string (business_hour_start d) @ '':00-'' @
        to_string (business_hour_end d) @ '':00)''\<rparr>"

text \<open>The range-for over the entries; \<open>detected_events\<close> is the result vector.\<close>

fun outside_hours_loop ::
  "(time_point \<Rightarrow> int) \<Rightarrow> EventDetector \<Rightarrow> LogEntry list \<Rightarrow> SuspiciousEvent list
     \<Rightarrow> SuspiciousEvent list"
where
  "outside_hours_loop tm_hour d [] detected_events = detected_events"
| "outside_hours_loop tm_hour d (entry # entries) detected_events =
     (if status entry \<noteq> SUCCESS then outside_hours_loop tm_hour d entries detected_events
      else
        (let hour = getHourOfDay tm_hour (timestamp entry);
             outside_hours = (hour < business_hour_start d \<or> hour \<ge> business_hour_end d)
         in if outside_hours
            then outside_hours_loop tm_hour d entries
                   (detected_events @ [outside_hours_event d entry hour])
            else outside_hours_loop tm_hour d entries detected_events))"

definition detectLoginsOutsideBusinessHours ::
  "(time_point \<Rightarrow> int) \<Rightarrow> EventDetector \<Rightarrow> LogEntry list \<Rightarrow> SuspiciousEvent list"
where
  "detectLoginsOutsideBusinessHours tm_hour d entries = outside_hours_loop tm_hour d entries []"

section \<open>detectMultipleIPAddresses\<close>

text \<open>The inner loop: it collects the addresses of the entries within the window.\<close>

function scan_ips ::
  "EventDetector \<Rightarrow> LogEntry list \<Rightarrow> LogEntry \<Rightarrow> nat \<Rightarrow> string list \<Rightarrow> nat
     \<Rightarrow> string list \<times> nat"
where
  "scan_ips d xs window_start j ips window_end_idx =
     (if j < length xs then
        (if isWithinTimeWindow d (timestamp window_start) (timestamp (xs ! j))
         then scan_ips d xs window_start (j + 1) (set_insert (ip_address (xs ! j)) ips) j
         else (ips, window_end_idx))
      else (ips, window_end_idx))"
  by pat_completeness auto
termination
  by (relation "measure (\<lambda>(d, xs, window_start, j, ips, window_end_idx). length xs - j)") auto

declare scan_ips.simps [simp del]

text \<open>
  The event of the multi-address detector: built with an empty address, then its
  address vector is cleared and refilled from the set in ascending order.
\<close>

definition ip_event ::
  "EventDetector \<Rightarrow> string \<Rightarrow> LogEntry \<Rightarrow> LogEntry \<Rightarrow> string list \<Rightarrow> SuspiciousEvent"
where
  "ip_event d user window_start window_end ips =
     (SuspiciousEvent_ctor MULTIPLE_IP_ADDRESSES user []
        (timestamp window_start) (timestamp window_end) (int (length ips)))
     \<lparr>ip_addresses := fold (\<lambda>ip v. v @ [ip]) ips [],
      description :=
        ''User '' @ [CHR 0x27] @ user @ [CHR 0x27] @ '' logged in from '' @
        to_string (int (length ips)) @ '' different IP addresses within '' @
        to_string (time_window_minutes d) @ '' minutes''\<rparr>"

lemma scan_ips_idx:
  "scan_ips d xs ws j ips w = (ips', w') \<Longrightarrow> w' = w \<or> (j \<le> w' \<and> w' < length xs)"
proof (induction d xs ws j ips w rule: scan_ips.induct)
  case (1 d xs ws j ips w)
  show ?case
  proof (cases "j < length xs \<and> isWithinTimeWindow d (timestamp ws) (timestamp (xs ! j))")
    case True
    then have "scan_ips d xs ws (j + 1) (set_insert (ip_address (xs ! j)) ips) j = (ips', w')"
      using "1.prems" by (simp add: scan_ips.simps [of d xs ws j])
    with True "1.IH" have "w' = j \<or> (j + 1 \<le> w' \<and> w' < length xs)" by blast
    with True show ?thesis by auto
  next
    case False
    then show ?thesis
      using "1.prems" by (auto simp: scan_ips.simps [of d xs ws j] split: if_splits)
  qed
qed

function ip_loop ::
  "EventDetector \<Rightarrow> string \<Rightarrow> LogEntry list \<Rightarrow> nat \<Rightarrow> SuspiciousEvent list
     \<Rightarrow> fault + SuspiciousEvent list"
where
  "ip_loop d user xs i detected_events =
     (if i < length xs then
        (let window_start = xs ! i in
         case scan_ips d xs window_start (i + 1)
                (set_insert (ip_address window_start) []) i of
           (ips, window_end_idx) \<Rightarrow>
             if length ips \<ge> 2 then
               (case vector_at xs window_end_idx of
                  Inl f \<Rightarrow> Inl f
                | Inr window_end \<Rightarrow>
                    ip_loop d user xs (window_end_idx + 1)
                      (detected_events @ [ip_event d user window_start window_end ips]))
             else ip_loop d user xs (i + 1) detected_events)
      else Inr detected_events)"
  by pat_completeness auto
termination ip_loop
  by (relation "measure (\<lambda>(d, user, xs, i, detected_events). length xs - i)")
    (auto dest!: scan_ips_idx [OF sym] simp: vector_at_def split: if_splits)

declare ip_loop.simps [simp del]

fun ip_users ::
  "(LogEntry list \<Rightarrow> LogEntry list) \<Rightarrow> EventDetector \<Rightarrow> user_map \<Rightarrow> SuspiciousEvent list
     \<Rightarrow> fault + SuspiciousEvent list"
where
  "ip_users std_sort d [] detected_events = Inr detected_events"
| "ip_users std_sort d ((user, user_logins) # m) detected_events =
     (case ip_loop d user (std_sort user_logins) 0 detected_events of
        Inl f \<Rightarrow> Inl f
      | Inr detected_events' \<Rightarrow> ip_users std_sort d m detected_events')"

definition detectMultipleIPAddresses ::
  "(LogEntry list \<Rightarrow> LogEntry list) \<Rightarrow> EventDetector \<Rightarrow> LogEntry list
     \<Rightarrow> fault + SuspiciousEvent list"
where
  "detectMultipleIPAddresses std_sort d entries =
     ip_users std_sort d (group_by_user SUCCESS entries []) []"

section \<open>detectAll\<close>

text \<open>
  The three detectors run in turn on the same entries; their results are inserted at the
  end of \<open>all_events\<close>, which starts empty.
\<close>

definition detectAll ::
  "(time_point \<Rightarrow> int) \<Rightarrow> (LogEntry list \<Rightarrow> LogEntry list) \<Rightarrow> EventDetector \<Rightarrow> LogEntry list
     \<Rightarrow> fault + SuspiciousEvent list"
where
  "detectAll tm_hour std_sort d entries =
     (case detectMultipleFailedLogins std_sort d entries of
        Inl f \<Rightarrow> Inl f
      | Inr failed_logins \<Rightarrow>
          (let outside_hours = detectLoginsOutsideBusinessHours tm_hour d entries in
           case detectMultipleIPAddresses std_sort d entries of
             Inl f \<Rightarrow> Inl f
           | Inr multiple_ips \<Rightarrow>
               Inr ((([] @ failed_logins) @ outside_hours) @ multiple_ips)))"

section \<open>Vocabulary of the proofs\<close>

text \<open>
  \<open>user_entries st u entries\<close>: the entries of status \<open>st\<close> and user \<open>u\<close>, in input
  order; after grouping, the vector of user \<open>u\<close>.
\<close>

definition user_entries :: "LoginStatus \<Rightarrow> string \<Rightarrow> LogEntry list \<Rightarrow> LogEntry list" where
  "user_entries st u entries = filter (\<lambda>e. status e = st \<and> username e = u) entries"

text \<open>
  \<open>in_window d ws e\<close>: the entry \<open>e\<close> passes the window test against the anchor \<open>ws\<close>.
  \<open>reach d ws ys\<close>: the entries of \<open>ys\<close> that a forward scan from the anchor counts, up
  to the first one outside the window. \<open>cluster_len d xs i\<close>: how many entries after the
  anchor at index \<open>i\<close> the scan counts. \<open>window_ips d xs i\<close>: the address set the scan
  from anchor \<open>i\<close> collects.
\<close>

definition in_window :: "EventDetector \<Rightarrow> LogEntry \<Rightarrow> LogEntry \<Rightarrow> bool" where
  "in_window d ws e = isWithinTimeWindow d (timestamp ws) (timestamp e)"

definition reach :: "EventDetector \<Rightarrow> LogEntry \<Rightarrow> LogEntry list \<Rightarrow> LogEntry list" where
  "reach d ws ys = takeWhile (in_window d ws) ys"

definition cluster_len :: "EventDetector \<Rightarrow> LogEntry list \<Rightarrow> nat \<Rightarrow> nat" where
  "cluster_len d xs i = length (reach d (xs ! i) (drop (i + 1) xs))"

definition window_ips :: "EventDetector \<Rightarrow> LogEntry list \<Rightarrow> nat \<Rightarrow> string list" where
  "window_ips d xs i =
     fold (\<lambda>e ips. set_insert (ip_address e) ips) (reach d (xs ! i) (drop (i + 1) xs))
       (set_insert (ip_address (xs ! i)) [])"

text \<open>
  \<open>failed_findings d u xs i\<close> and \<open>ip_findings d u xs i\<close>: the events that the outer
  loop of the detector appends from anchor \<open>i\<close> on. \<open>outside_hours tm_hour d e\<close>: the
  condition under which the after-hours detector appends an event for \<open>e\<close>.
\<close>

definition failed_findings ::
  "EventDetector \<Rightarrow> string \<Rightarrow> LogEntry list \<Rightarrow> nat \<Rightarrow> SuspiciousEvent list" where
  "failed_findings d u xs i = (case failed_loop d u xs i [] of Inr evs \<Rightarrow> evs | Inl f \<Rightarrow> [])"

definition ip_findings ::
  "EventDetector \<Rightarrow> string \<Rightarrow> LogEntry list \<Rightarrow> nat \<Rightarrow> SuspiciousEvent list" where
  "ip_findings d u xs i = (case ip_loop d u xs i [] of Inr evs \<Rightarrow> evs | Inl f \<Rightarrow> [])"

definition outside_hours :: "(time_point \<Rightarrow> int) \<Rightarrow> EventDetector \<Rightarrow> LogEntry \<Rightarrow> bool" where
  "outside_hours tm_hour d e =
     (status e = SUCCESS \<and>
      (tm_hour (timestamp e) < business_hour_start d \<or> business_hour_end d \<le> tm_hour (timestamp e)))"

text \<open>
  Example inputs. \<open>burst u ip st base offsets\<close> is one entry of user \<open>u\<close>, address
  \<open>ip\<close> and status \<open>st\<close> at each of the given minute offsets from \<open>base\<close>.
  \<open>utc_hour\<close> is the local hour of a process whose time zone is UTC.
  \<open>all_kinds_entries\<close> has a failed-login burst, an after-hours login and a login from
  two addresses.
\<close>

definition burst :: "string \<Rightarrow> string \<Rightarrow> LoginStatus \<Rightarrow> time_point \<Rightarrow> int list \<Rightarrow> LogEntry list" where
  "burst u ip st base offsets =
     map (\<lambda>k. \<lparr>timestamp = base + 60 * k, username = u, ip_address = ip, status = st\<rparr>) offsets"

definition utc_hour :: "time_point \<Rightarrow> int" where
  "utc_hour ts = (ts div 3600) mod 24"

definition all_kinds_entries :: "LogEntry list" where
  "all_kinds_entries =
     burst ''alice'' ''192.168.1.1'' FAILED 36000 [0, 1, 2, 3, 4]
     @ burst ''bob'' ''10.0.0.1'' SUCCESS 79200 [0]
     @ burst ''charlie'' ''172.16.0.1'' SUCCESS 50400 [0]
     @ burst ''charlie'' ''172.16.0.2'' SUCCESS 50400 [5]"

section \<open>Properties of the failed-login scan\<close>

lemma reach_Nil [simp]: "reach d ws [] = []"
  by (simp add: reach_def)

lemma reach_Cons:
  "reach d ws (y # ys) = (if in_window d ws y then y # reach d ws ys else [])"
  by (simp add: reach_def)

lemma length_reach_le: "length (reach d ws ys) \<le> length ys"
  by (simp add: reach_def length_takeWhile_le)

lemma cluster_len_less: "i < length xs \<Longrightarrow> i + cluster_len d xs i < length xs"
  using length_reach_le [of d "xs ! i" "drop (i + 1) xs"] by (simp add: cluster_len_def)

lemma scan_failed_reach:
  "scan_failed d xs ws j cnt w =
     (cnt + int (length (reach d ws (drop j xs))),
      if reach d ws (drop j xs) = [] then w else j + length (reach d ws (drop j xs)) - 1)"
proof (induction d xs ws j cnt w rule: scan_failed.induct)
  case (1 d xs ws j cnt w)
  show ?case
  proof (cases "j < length xs")
    case False
    then show ?thesis by (simp add: scan_failed.simps [of d xs ws j])
  next
    case True
    then have dr: "drop j xs = xs ! j # drop (j + 1) xs"
      by (simp add: Cons_nth_drop_Suc)
    show ?thesis
    proof (cases "isWithinTimeWindow d (timestamp ws) (timestamp (xs ! j))")
      case False
      with True show ?thesis
        by (simp add: scan_failed.simps [of d xs ws j] dr reach_Cons in_window_def)
    next
      case within: True
      have "scan_failed d xs ws j cnt w = scan_failed d xs ws (j + 1) (cnt + 1) j"
        using True within by (simp add: scan_failed.simps [of d xs ws j])
      also have "\<dots> = (cnt + 1 + int (length (reach d ws (drop (j + 1) xs))),
          if reach d ws (drop (j + 1) xs) = [] then j
          else j + 1 + length (reach d ws (drop (j + 1) xs)) - 1)"
        using "1.IH" True within by simp
      finally show ?thesis
        using within by (simp add: dr reach_Cons in_window_def)
    qed
  qed
qed

lemma scan_failed_anchor:
  "scan_failed d xs (xs ! i) (Suc i) 1 i = (1 + int (cluster_len d xs i), i + cluster_len d xs i)"
  by (simp add: scan_failed_reach cluster_len_def)

lemma failed_loop_end: "\<not> i < length xs \<Longrightarrow> failed_loop d u xs i acc = Inr acc"
  by (simp add: failed_loop.simps [of d u xs i])

lemma failed_loop_step:
  assumes "i < length xs"
  shows "failed_loop d u xs i acc =
     (if failed_login_threshold d \<le> 1 + int (cluster_len d xs i)
      then failed_loop d u xs (i + cluster_len d xs i + 1)
             (acc @ [failed_event d u (xs ! i) (xs ! (i + cluster_len d xs i))
                       (1 + int (cluster_len d xs i))])
      else failed_loop d u xs (i + 1) acc)"
  using assms cluster_len_less [OF assms, of d]
  by (simp add: failed_loop.simps [of d u xs i] scan_failed_anchor vector_at_def Let_def)

lemma failed_loop_total:
  "\<exists>new. \<forall>acc. failed_loop d u xs i acc = Inr (acc @ new)"
proof (induction "length xs - i" arbitrary: i rule: less_induct)
  case less
  show ?case
  proof (cases "i < length xs")
    case False
    then have "\<forall>acc. failed_loop d u xs i acc = Inr (acc @ [])"
      by (simp add: failed_loop_end)
    then show ?thesis by blast
  next
    case True
    let ?n = "cluster_len d xs i"
    show ?thesis
    proof (cases "failed_login_threshold d \<le> 1 + int ?n")
      case hit: True
      have "length xs - (i + ?n + 1) < length xs - i" using True by simp
      from less [OF this] obtain new
        where new: "\<forall>acc. failed_loop d u xs (i + ?n + 1) acc = Inr (acc @ new)" by blast
      have "\<forall>acc. failed_loop d u xs i acc =
          Inr (acc @ (failed_event d u (xs ! i) (xs ! (i + ?n)) (1 + int ?n) # new))"
        using hit new by (simp add: failed_loop_step [OF True])
      then show ?thesis by blast
    next
      case miss: False
      have "length xs - (i + 1) < length xs - i" using True by simp
      from less [OF this] obtain new
        where new: "\<forall>acc. failed_loop d u xs (i + 1) acc = Inr (acc @ new)" by blast
      have "\<forall>acc. failed_loop d u xs i acc = Inr (acc @ new)"
        using miss new by (simp add: failed_loop_step [OF True])
      then show ?thesis by blast
    qed
  qed
qed

lemma failed_loop_Inr: "failed_loop d u xs i acc = Inr (acc @ failed_findings d u xs i)"
proof -
  obtain new where new: "\<forall>acc. failed_loop d u xs i acc = Inr (acc @ new)"
    using failed_loop_total by blast
  then have "failed_findings d u xs i = new"
    by (simp add: failed_findings_def)
  with new show ?thesis by simp
qed

lemma failed_findings_end: "\<not> i < length xs \<Longrightarrow> failed_findings d u xs i = []"
  by (simp add: failed_findings_def failed_loop_end)

lemma failed_findings_step:
  assumes "i < length xs"
  shows "failed_findings d u xs i =
     (if failed_login_threshold d \<le> 1 + int (cluster_len d xs i)
      then failed_event d u (xs ! i) (xs ! (i + cluster_len d xs i))
             (1 + int (cluster_len d xs i))
           # failed_findings d u xs (i + cluster_len d xs i + 1)
      else failed_findings d u xs (i + 1))"
  using failed_loop_step [OF assms, of d u "[]"]
  by (simp add: failed_loop_Inr split: if_splits)

lemma failed_findings_cases:
  "e \<in> set (failed_findings d u xs i) \<Longrightarrow>
   \<exists>a. i \<le> a \<and> a < length xs \<and> failed_login_threshold d \<le> 1 + int (cluster_len d xs a) \<and>
       e = failed_event d u (xs ! a) (xs ! (a + cluster_len d xs a)) (1 + int (cluster_len d xs a))"
proof (induction "length xs - i" arbitrary: i rule: less_induct)
  case less
  show ?case
  proof (cases "i < length xs")
    case False
    with less.prems show ?thesis by (simp add: failed_findings_end)
  next
    case True
    let ?n = "cluster_len d xs i"
    show ?thesis
    proof (cases "failed_login_threshold d \<le> 1 + int ?n")
      case hit: True
      then have "e = failed_event d u (xs ! i) (xs ! (i + ?n)) (1 + int ?n)
          \<or> e \<in> set (failed_findings d u xs (i + ?n + 1))"
        using less.prems by (simp add: failed_findings_step [OF True])
      then show ?thesis
      proof
        assume "e = failed_event d u (xs ! i) (xs ! (i + ?n)) (1 + int ?n)"
        with True hit show ?thesis by blast
      next
        assume rest: "e \<in> set (failed_findings d u xs (i + ?n + 1))"
        have "length xs - (i + ?n + 1) < length xs - i" using True by simp
        from less.hyps [OF this rest] obtain a where
          a: "i + ?n + 1 \<le> a" "a < length xs"
            "failed_login_threshold d \<le> 1 + int (cluster_len d xs a)"
            "e = failed_event d u (xs ! a) (xs ! (a + cluster_len d xs a))
                   (1 + int (cluster_len d xs a))"
          by blast
        from a(1) have "i \<le> a" by simp
        with a show ?thesis by blast
      qed
    next
      case miss: False
      then have rest: "e \<in> set (failed_findings d u xs (i + 1))"
        using less.prems by (simp add: failed_findings_step [OF True])
      have "length xs - (i + 1) < length xs - i" using True by simp
      from less.hyps [OF this rest] obtain a where
        a: "i + 1 \<le> a" "a < length xs"
          "failed_login_threshold d \<le> 1 + int (cluster_len d xs a)"
          "e = failed_event d u (xs ! a) (xs ! (a + cluster_len d xs a))
                 (1 + int (cluster_len d xs a))"
        by blast
      from a(1) have "i \<le> a" by simp
      with a show ?thesis by blast
    qed
  qed
qed

lemma failed_event_fields [simp]:
  "ev_type (failed_event d u ws we c) = MULTIPLE_FAILED_LOGINS"
  "ev_username (failed_event d u ws we c) = u"
  "ip_addresses (failed_event d u ws we c) = [ip_address ws]"
  "first_occurrence (failed_event d u ws we c) = timestamp ws"
  "last_occurrence (failed_event d u ws we c) = timestamp we"
  "event_count (failed_event d u ws we c) = c"
  by (simp_all add: failed_event_def SuspiciousEvent_ctor_def)

lemma failed_findings_username:
  "e \<in> set (failed_findings d u xs i) \<Longrightarrow> ev_username e = u"
  by (auto dest: failed_findings_cases)

lemma failed_users_Inr:
  "failed_users std_sort d m acc =
     Inr (acc @ concat (map (\<lambda>(u, g). failed_findings d u (std_sort g) 0) m))"
  by (induction m arbitrary: acc) (auto simp: failed_loop_Inr)

subsection \<open>Grouping by user\<close>

lemma map_push_back_keys:
  "set (map fst (map_push_back k e m)) = insert k (set (map fst m))"
  by (induction k e m rule: map_push_back.induct) (simp_all add: insert_commute)

lemma map_push_back_sorted:
  "sorted_wrt (<) (map fst m) \<Longrightarrow> sorted_wrt (<) (map fst (map_push_back k e m))"
proof (induction m)
  case Nil
  then show ?case by simp
next
  case (Cons p m)
  obtain k' es where p: "p = (k', es)" by (cases p)
  show ?case
  proof (cases "k = k'")
    case True
    with Cons.prems p show ?thesis by simp
  next
    case ne: False
    show ?thesis
    proof (cases "k < k'")
      case True
      with Cons.prems p ne show ?thesis by (auto intro: less_trans)
    next
      case False
      with ne have "k' < k" by simp
      moreover have "sorted_wrt (<) (map fst (map_push_back k e m))"
        using Cons by simp
      ultimately show ?thesis
        using Cons.prems p ne False map_push_back_keys [of k e m] by auto
    qed
  qed
qed

lemma map_of_all_greater:
  fixes m :: "(string \<times> 'b) list"
  assumes "\<forall>k' \<in> set (map fst m). k < k'"
  shows "map_of m k = None"
proof -
  have "k \<notin> fst ` set m" using assms by auto
  then show ?thesis by (simp add: map_of_eq_None_iff)
qed

lemma map_push_back_lookup:
  "sorted_wrt (<) (map fst m) \<Longrightarrow>
   map_of (map_push_back k e m) u =
     (if u = k then Some ((case map_of m k of None \<Rightarrow> [] | Some es \<Rightarrow> es) @ [e])
      else map_of m u)"
proof (induction m)
  case Nil
  then show ?case by simp
next
  case (Cons p m)
  obtain k' es where p: "p = (k', es)" by (cases p)
  show ?case
  proof (cases "k = k'")
    case True
    with p show ?thesis by simp
  next
    case ne: False
    show ?thesis
    proof (cases "k < k'")
      case True
      have "\<forall>k'' \<in> set (map fst m). k < k''"
        using Cons.prems p True by (auto intro: less_trans)
      then have "map_of m k = None"
        by (rule map_of_all_greater)
      with True ne p show ?thesis by simp
    next
      case False
      with Cons ne p show ?thesis by auto
    qed
  qed
qed

lemma group_by_user_sorted:
  "sorted_wrt (<) (map fst m) \<Longrightarrow> sorted_wrt (<) (map fst (group_by_user st es m))"
  by (induction es arbitrary: m) (simp_all add: map_push_back_sorted)

lemma group_by_user_lookup:
  "sorted_wrt (<) (map fst m) \<Longrightarrow>
   map_of (group_by_user st es m) u =
     (if filter (\<lambda>e. status e = st \<and> username e = u) es = [] then map_of m u
      else Some ((case map_of m u of None \<Rightarrow> [] | Some old \<Rightarrow> old)
                 @ filter (\<lambda>e. status e = st \<and> username e = u) es))"
proof (induction es arbitrary: m)
  case Nil
  then show ?case by simp
next
  case (Cons e es)
  show ?case
  proof (cases "status e = st")
    case False
    with Cons show ?thesis by simp
  next
    case True
    have s: "sorted_wrt (<) (map fst (map_push_back (username e) e m))"
      using Cons.prems by (rule map_push_back_sorted)
    show ?thesis
      using True Cons.IH [OF s] Cons.prems
      by (simp add: map_push_back_lookup)
  qed
qed

lemma concat_user_filter:
  assumes "sorted_wrt (<) (map fst m)"
    and "\<And>k g e. e \<in> set (F k g) \<Longrightarrow> ev_username e = k"
  shows "filter (\<lambda>e. ev_username e = u) (concat (map (\<lambda>(k, g). F k g) m)) =
     (case map_of m u of None \<Rightarrow> [] | Some g \<Rightarrow> F u g)"
  using assms(1)
proof (induction m)
  case Nil
  then show ?case by simp
next
  case (Cons p m)
  obtain k g where p: "p = (k, g)" by (cases p)
  have IH: "filter (\<lambda>e. ev_username e = u) (concat (map (\<lambda>(k, g). F k g) m)) =
     (case map_of m u of None \<Rightarrow> [] | Some g \<Rightarrow> F u g)"
    using Cons by simp
  show ?case
  proof (cases "k = u")
    case True
    have "\<forall>k' \<in> set (map fst m). u < k'" using Cons.prems p True by auto
    then have none: "map_of m u = None"
      by (rule map_of_all_greater)
    have "filter (\<lambda>e. ev_username e = u) (F u g) = F u g"
      using assms(2) by (simp add: filter_id_conv)
    with True p IH none show ?thesis by simp
  next
    case False
    have "filter (\<lambda>e. ev_username e = u) (F k g) = []"
      using assms(2) False by (auto simp: filter_empty_conv)
    with False p IH show ?thesis by simp
  qed
qed

lemma sorts_by_timestamp_Nil:
  assumes "sorts_by_timestamp std_sort"
  shows "std_sort [] = []"
proof -
  have "mset (std_sort []) = mset []"
    using assms unfolding sorts_by_timestamp_def by blast
  then show ?thesis by simp
qed

lemma detectMultipleFailedLogins_Inr:
  "detectMultipleFailedLogins std_sort d entries =
     Inr (concat (map (\<lambda>(u, g). failed_findings d u (std_sort g) 0)
            (group_by_user FAILED entries [])))"
  by (simp add: detectMultipleFailedLogins_def failed_users_Inr)

lemma detectMultipleFailedLogins_user:
  assumes "sorts_by_timestamp std_sort"
  shows "\<exists>evs. detectMultipleFailedLogins std_sort d entries = Inr evs \<and>
     filter (\<lambda>e. ev_username e = u) evs =
       failed_findings d u (std_sort (user_entries FAILED u entries)) 0"
proof -
  let ?m = "group_by_user FAILED entries []"
  have s: "sorted_wrt (<) (map fst ?m)" by (rule group_by_user_sorted) simp
  have "filter (\<lambda>e. ev_username e = u)
          (concat (map (\<lambda>(k, g). failed_findings d k (std_sort g) 0) ?m)) =
        (case map_of ?m u of None \<Rightarrow> [] | Some g \<Rightarrow> failed_findings d u (std_sort g) 0)"
    using s by (rule concat_user_filter) (rule failed_findings_username)
  also have "\<dots> = failed_findings d u (std_sort (user_entries FAILED u entries)) 0"
    using sorts_by_timestamp_Nil [OF assms]
    by (simp add: group_by_user_lookup user_entries_def failed_findings_end)
  finally show ?thesis
    by (simp add: detectMultipleFailedLogins_Inr)
qed

section \<open>The within-window test\<close>

lemma int64_wrap_id:
  "- 9223372036854775808 \<le> x \<Longrightarrow> x < 9223372036854775808 \<Longrightarrow> int64_wrap x = x"
  by (simp add: int64_wrap_def)

lemma int64_wrap_le: "0 \<le> x \<Longrightarrow> int64_wrap x \<le> x"
proof -
  assume "0 \<le> x"
  then have "(x + 9223372036854775808) mod 18446744073709551616 \<le> x + 9223372036854775808"
    by (intro zmod_le_nonneg_dividend) simp
  then show ?thesis by (simp add: int64_wrap_def)
qed

lemma duration_cast_minutes_mono:
  "x \<le> y \<Longrightarrow> duration_cast_minutes x \<le> duration_cast_minutes y"
proof -
  assume xy: "x \<le> y"
  consider "0 \<le> x" | "x < 0" "y < 0" | "x < 0" "0 \<le> y" by linarith
  then show ?thesis
  proof cases
    case 1
    with xy show ?thesis by (simp add: duration_cast_minutes_def zdiv_mono1)
  next
    case 2
    with xy have "(- y) div 60000000000 \<le> (- x) div 60000000000"
      by (intro zdiv_mono1) simp_all
    with 2 show ?thesis by (simp add: duration_cast_minutes_def)
  next
    case 3
    then have "0 \<le> (- x) div 60000000000" "0 \<le> y div 60000000000"
      by (simp_all add: pos_imp_zdiv_nonneg_iff)
    with 3 show ?thesis by (simp add: duration_cast_minutes_def)
  qed
qed

lemma duration_cast_minutes_seconds:
  "0 \<le> s \<Longrightarrow> duration_cast_minutes (s * 1000000000) = s div 60"
proof -
  assume "0 \<le> s"
  have "(s * 1000000000) div (60 * 1000000000) = s div 60"
    by (rule div_mult_mult2) simp
  with \<open>0 \<le> s\<close> show ?thesis by (simp add: duration_cast_minutes_def)
qed

lemma isWithinTimeWindow_wrap:
  "isWithinTimeWindow d t1 t2 \<longleftrightarrow>
     duration_cast_minutes (int64_wrap (\<bar>t1 - t2\<bar> * 1000000000)) \<le> time_window_minutes d"
proof -
  have "(if t1 > t2 then time_point_minus t1 t2 else time_point_minus t2 t1) =
      int64_wrap (\<bar>t1 - t2\<bar> * 1000000000)"
    by (simp add: time_point_minus_def time_since_epoch_count_def abs_if algebra_simps)
  then show ?thesis by (simp add: isWithinTimeWindow_def Let_def)
qed


text \<open>
  A pair whose exact difference truncates to at most the window passes the test, whether
  or not the subtraction wraps.
\<close>

lemma isWithinTimeWindow_if_close:
  assumes "\<bar>t1 - t2\<bar> div 60 \<le> time_window_minutes d"
  shows "isWithinTimeWindow d t1 t2"
proof -
  have "duration_cast_minutes (int64_wrap (\<bar>t1 - t2\<bar> * 1000000000))
      \<le> duration_cast_minutes (\<bar>t1 - t2\<bar> * 1000000000)"
    by (intro duration_cast_minutes_mono int64_wrap_le) simp
  also have "\<dots> = \<bar>t1 - t2\<bar> div 60"
    by (rule duration_cast_minutes_seconds) simp
  finally show ?thesis using assms by (simp add: isWithinTimeWindow_wrap)
qed

text \<open>
  When the two time points are less than \<open>2\<^sup>6\<^sup>3\<close> nanoseconds apart the subtraction is
  exact, and the test is the comparison of the truncated difference with the window.
\<close>

lemma isWithinTimeWindow_iff:
  assumes "\<bar>t1 - t2\<bar> * 1000000000 < 9223372036854775808"
  shows "isWithinTimeWindow d t1 t2 \<longleftrightarrow> \<bar>t1 - t2\<bar> div 60 \<le> time_window_minutes d"
proof -
  have "0 \<le> \<bar>t1 - t2\<bar> * 1000000000" by simp
  then have "int64_wrap (\<bar>t1 - t2\<bar> * 1000000000) = \<bar>t1 - t2\<bar> * 1000000000"
    using assms by (intro int64_wrap_id) linarith+
  then show ?thesis
    by (simp add: isWithinTimeWindow_wrap duration_cast_minutes_seconds)
qed




section \<open>Sorting and whole clusters\<close>

lemma sort_key_sorts_by_timestamp: "sorts_by_timestamp (sort_key timestamp)"
  by (simp add: sorts_by_timestamp_def)

lemma sorts_by_timestamp_mset: "sorts_by_timestamp std_sort \<Longrightarrow> mset (std_sort xs) = mset xs"
  by (simp add: sorts_by_timestamp_def)

lemma sorts_by_timestamp_set: "sorts_by_timestamp std_sort \<Longrightarrow> set (std_sort xs) = set xs"
  by (metis sorts_by_timestamp_mset set_mset_mset)

lemma sorts_by_timestamp_length:
  "sorts_by_timestamp std_sort \<Longrightarrow> length (std_sort xs) = length xs"
  by (metis sorts_by_timestamp_mset size_mset)

lemma sorts_by_timestamp_sorted:
  "sorts_by_timestamp std_sort \<Longrightarrow> sorted (map timestamp (std_sort xs))"
  by (simp add: sorts_by_timestamp_def)

lemma sorted_first_least:
  assumes "sorted (map timestamp xs)" and "e \<in> set xs"
  shows "timestamp (xs ! 0) \<le> timestamp e"
proof -
  from assms(2) obtain k where k: "k < length xs" "xs ! k = e"
    by (auto simp: in_set_conv_nth)
  then have "map timestamp xs ! 0 \<le> map timestamp xs ! k"
    using assms(1) by (intro sorted_nth_mono) simp_all
  moreover have "0 < length xs" using k(1) by auto
  ultimately show ?thesis using k by (simp add: nth_map)
qed

lemma sorted_last_greatest:
  assumes "sorted (map timestamp xs)" and "e \<in> set xs"
  shows "timestamp e \<le> timestamp (last xs)"
proof -
  from assms(2) obtain k where k: "k < length xs" "xs ! k = e"
    by (auto simp: in_set_conv_nth)
  then have "map timestamp xs ! k \<le> map timestamp xs ! (length xs - 1)"
    using assms(1) by (intro sorted_nth_mono) simp_all
  moreover have "xs \<noteq> []" "length xs - 1 < length xs" using k(1) by auto
  ultimately show ?thesis using k by (simp add: last_conv_nth nth_map)
qed

lemma cluster_len_all:
  assumes "xs \<noteq> []" and "\<forall>e \<in> set xs. in_window d (xs ! 0) e"
  shows "cluster_len d xs 0 = length xs - 1"
proof -
  have "\<forall>e \<in> set (drop 1 xs). in_window d (xs ! 0) e"
    using assms(2) by (meson in_set_dropD)
  then have "takeWhile (in_window d (xs ! 0)) (drop 1 xs) = drop 1 xs"
    by (simp only: takeWhile_eq_all_conv)
  moreover have "cluster_len d xs 0 = length (takeWhile (in_window d (xs ! 0)) (drop 1 xs))"
    by (simp add: cluster_len_def reach_def)
  ultimately have "cluster_len d xs 0 = length (drop 1 xs)" by (simp only:)
  then show ?thesis by simp
qed

lemma failed_findings_whole:
  assumes "xs \<noteq> []" and "\<forall>e \<in> set xs. in_window d (xs ! 0) e"
    and "failed_login_threshold d \<le> int (length xs)"
  shows "failed_findings d u xs 0 =
     [failed_event d u (xs ! 0) (last xs) (int (length xs))]"
proof -
  have n: "cluster_len d xs 0 = length xs - 1"
    using assms(1,2) by (rule cluster_len_all)
  have pos: "0 < length xs" using assms(1) by simp
  have cnt: "1 + int (length xs - 1) = int (length xs)"
    using pos by (cases "length xs") simp_all
  have idx: "0 + (length xs - 1) = length xs - 1" "length xs - 1 + 1 = length xs"
    using pos by simp_all
  have "failed_findings d u xs 0 =
      failed_event d u (xs ! 0) (xs ! (length xs - 1)) (int (length xs))
      # failed_findings d u xs (length xs)"
    using failed_findings_step [OF pos, of d u] assms(3)
    unfolding n cnt idx by (simp only: if_True)
  then show ?thesis
    using assms(1) by (simp add: failed_findings_end last_conv_nth)
qed

lemma failed_findings_short:
  assumes "int (length xs) < failed_login_threshold d"
  shows "failed_findings d u xs i = []"
proof (rule ccontr)
  assume "failed_findings d u xs i \<noteq> []"
  then obtain e where "e \<in> set (failed_findings d u xs i)"
    by (cases "failed_findings d u xs i") auto
  then obtain a where a: "a < length xs"
      "failed_login_threshold d \<le> 1 + int (cluster_len d xs a)"
    using failed_findings_cases by blast
  from cluster_len_less [OF a(1), of d] have "1 + int (cluster_len d xs a) \<le> int (length xs)"
    by simp
  with a(2) assms show False by simp
qed

text \<open>
  Claim C1. A user whose failed logins are exactly twice the threshold, all pairwise
  within the window, gets exactly one finding: it counts all of them and spans the
  earliest to the latest. The second conjunct is the skip itself: whenever the scan from
  the anchor \<open>i\<close> reports \<open>cnt\<close> entries up to index \<open>w\<close> and \<open>cnt\<close> reaches the
  threshold, the entries counted are those at \<open>i..w\<close>, one event is appended, and the
  outer loop continues at anchor \<open>w + 1\<close>.
\<close>

theorem failed_logins_double_cluster_one_finding:
  assumes "sorts_by_timestamp std_sort"
    and "0 < failed_login_threshold d"
    and "int (length (user_entries FAILED u entries)) = 2 * failed_login_threshold d"
    and "\<forall>a \<in> set (user_entries FAILED u entries). \<forall>b \<in> set (user_entries FAILED u entries).
           isWithinTimeWindow d (timestamp a) (timestamp b)"
  shows "(\<exists>evs ev. detectMultipleFailedLogins std_sort d entries = Inr evs
            \<and> filter (\<lambda>e. ev_username e = u) evs = [ev]
            \<and> event_count ev = 2 * failed_login_threshold d
            \<and> first_occurrence ev = Min (timestamp ` set (user_entries FAILED u entries))
            \<and> last_occurrence ev = Max (timestamp ` set (user_entries FAILED u entries)))
     \<and> (\<forall>xs i acc cnt w.
           i < length xs \<and> scan_failed d xs (xs ! i) (i + 1) 1 i = (cnt, w)
             \<and> failed_login_threshold d \<le> cnt \<longrightarrow>
           i \<le> w \<and> w < length xs \<and> cnt = int (w - i + 1)
             \<and> failed_loop d u xs i acc =
                 failed_loop d u xs (w + 1) (acc @ [failed_event d u (xs ! i) (xs ! w) cnt]))"
proof -
  let ?g = "user_entries FAILED u entries"
  let ?xs = "std_sort ?g"
  have len: "length ?xs = length ?g" using assms(1) by (rule sorts_by_timestamp_length)
  have set: "set ?xs = set ?g" using assms(1) by (rule sorts_by_timestamp_set)
  have srt: "sorted (map timestamp ?xs)" using assms(1) by (rule sorts_by_timestamp_sorted)
  have ne: "?xs \<noteq> []" using assms(2,3) len by auto
  then have x0: "?xs ! 0 \<in> set ?xs" by simp
  have win: "\<forall>e \<in> set ?xs. in_window d (?xs ! 0) e"
    using assms(4) x0 set by (simp add: in_window_def)
  have thr: "failed_login_threshold d \<le> int (length ?xs)"
    using assms(2,3) len by simp
  have ff: "failed_findings d u ?xs 0 =
      [failed_event d u (?xs ! 0) (last ?xs) (int (length ?xs))]"
    using ne win thr by (rule failed_findings_whole)
  have mn: "timestamp (?xs ! 0) = Min (timestamp ` set ?g)"
  proof (rule sym, rule Min_eqI)
    show "finite (timestamp ` set ?g)" by simp
    show "timestamp (?xs ! 0) \<in> timestamp ` set ?g" using x0 set by blast
    fix y assume "y \<in> timestamp ` set ?g"
    then show "timestamp (?xs ! 0) \<le> y"
      using sorted_first_least [OF srt] set by auto
  qed
  have mx: "timestamp (last ?xs) = Max (timestamp ` set ?g)"
  proof (rule sym, rule Max_eqI)
    show "finite (timestamp ` set ?g)" by simp
    show "timestamp (last ?xs) \<in> timestamp ` set ?g" using ne set last_in_set by blast
    fix y assume "y \<in> timestamp ` set ?g"
    then show "y \<le> timestamp (last ?xs)"
      using sorted_last_greatest [OF srt] set by auto
  qed
  obtain evs where evs: "detectMultipleFailedLogins std_sort d entries = Inr evs"
      "filter (\<lambda>e. ev_username e = u) evs = failed_findings d u ?xs 0"
    using detectMultipleFailedLogins_user [OF assms(1)] by blast
  have one: "\<exists>evs ev. detectMultipleFailedLogins std_sort d entries = Inr evs
            \<and> filter (\<lambda>e. ev_username e = u) evs = [ev]
            \<and> event_count ev = 2 * failed_login_threshold d
            \<and> first_occurrence ev = Min (timestamp ` set ?g)
            \<and> last_occurrence ev = Max (timestamp ` set ?g)"
    using evs ff mn mx len assms(3) by simp
  have skip: "\<forall>xs i acc cnt w.
           i < length xs \<and> scan_failed d xs (xs ! i) (i + 1) 1 i = (cnt, w)
             \<and> failed_login_threshold d \<le> cnt \<longrightarrow>
           i \<le> w \<and> w < length xs \<and> cnt = int (w - i + 1)
             \<and> failed_loop d u xs i acc =
                 failed_loop d u xs (w + 1) (acc @ [failed_event d u (xs ! i) (xs ! w) cnt])"
  proof (intro allI impI)
    fix xs i acc cnt w
    assume a: "i < length xs \<and> scan_failed d xs (xs ! i) (i + 1) 1 i = (cnt, w)
             \<and> failed_login_threshold d \<le> cnt"
    then have i: "i < length xs" by simp
    from a have cw: "cnt = 1 + int (cluster_len d xs i)" "w = i + cluster_len d xs i"
      by (simp_all add: scan_failed_anchor)
    show "i \<le> w \<and> w < length xs \<and> cnt = int (w - i + 1)
             \<and> failed_loop d u xs i acc =
                 failed_loop d u xs (w + 1) (acc @ [failed_event d u (xs ! i) (xs ! w) cnt])"
      using a cw cluster_len_less [OF i, of d] by (simp add: failed_loop_step [OF i])
  qed
  from one skip show ?thesis by blast
qed

theorem failed_logins_double_cluster_one_finding_witness:
  "0 < failed_login_threshold (EventDetector_default\<lparr>failed_login_threshold := 2\<rparr>)
   \<and> int (length (user_entries FAILED ''alice''
          (burst ''alice'' ''10.0.0.1'' FAILED 1000 [3, 0, 2, 1] @ burst ''bob'' ''10.0.0.2'' FAILED 1000 [0])))
       = 2 * failed_login_threshold (EventDetector_default\<lparr>failed_login_threshold := 2\<rparr>)
   \<and> (\<exists>evs ev. detectMultipleFailedLogins (sort_key timestamp)
          (EventDetector_default\<lparr>failed_login_threshold := 2\<rparr>)
          (burst ''alice'' ''10.0.0.1'' FAILED 1000 [3, 0, 2, 1] @ burst ''bob'' ''10.0.0.2'' FAILED 1000 [0]) = Inr evs
        \<and> filter (\<lambda>e. ev_username e = ''alice'') evs = [ev]
        \<and> event_count ev = 4 \<and> first_occurrence ev = 1000 \<and> last_occurrence ev = 1180)"
proof -
  let ?d = "EventDetector_default\<lparr>failed_login_threshold := 2\<rparr>"
  let ?es = "burst ''alice'' ''10.0.0.1'' FAILED 1000 [3, 0, 2, 1] @ burst ''bob'' ''10.0.0.2'' FAILED 1000 [0]"
  have h2: "0 < failed_login_threshold ?d" by (simp add: EventDetector_default_def)
  have h3: "int (length (user_entries FAILED ''alice'' ?es)) = 2 * failed_login_threshold ?d"
    by (simp add: user_entries_def burst_def EventDetector_default_def)
  have h4: "\<forall>a \<in> set (user_entries FAILED ''alice'' ?es).
      \<forall>b \<in> set (user_entries FAILED ''alice'' ?es).
        isWithinTimeWindow ?d (timestamp a) (timestamp b)"
    by (simp add: user_entries_def burst_def isWithinTimeWindow_iff EventDetector_default_def)
  show ?thesis
    using failed_logins_double_cluster_one_finding
      [OF sort_key_sorts_by_timestamp h2 h3 h4] h2 h3
    by (simp add: user_entries_def burst_def EventDetector_default_def)
qed

section \<open>The threshold and the window boundary\<close>

lemma user_entries_insert:
  assumes "status r = st" and "username r = u"
  shows "user_entries st u (pre @ r # post) =
     user_entries st u pre @ r # user_entries st u post"
    and "set (user_entries st u (pre @ r # post)) = insert r (set (user_entries st u (pre @ post)))"
    and "length (user_entries st u (pre @ r # post)) = Suc (length (user_entries st u (pre @ post)))"
  using assms by (auto simp: user_entries_def)

text \<open>
  Claim C4. A user with exactly threshold - 1 failed logins, all pairwise within the
  window, gets no finding. One more failed login \<open>r\<close> of that user is then added
  anywhere in the input; \<open>e0\<close> is the earliest record of the cluster (no later than any
  other failed login of the user, nor than \<open>r\<close>), and the distance of \<open>r\<close> from \<open>e0\<close>
  truncates to exactly the window. Then the user gets exactly one finding, whose count
  is the threshold and which starts at \<open>e0\<close>.
\<close>

theorem failed_logins_threshold_boundary:
  assumes "sorts_by_timestamp std_sort"
    and "int (length (user_entries FAILED u (pre @ post))) = failed_login_threshold d - 1"
    and "\<forall>a \<in> set (user_entries FAILED u (pre @ post)).
         \<forall>b \<in> set (user_entries FAILED u (pre @ post)).
           isWithinTimeWindow d (timestamp a) (timestamp b)"
  shows "(\<exists>evs. detectMultipleFailedLogins std_sort d (pre @ post) = Inr evs
            \<and> filter (\<lambda>e. ev_username e = u) evs = [])
     \<and> (status r = FAILED \<and> username r = u
          \<and> e0 \<in> set (user_entries FAILED u (pre @ post))
          \<and> (\<forall>e \<in> set (user_entries FAILED u (pre @ post)). timestamp e0 \<le> timestamp e)
          \<and> timestamp e0 \<le> timestamp r
          \<and> (timestamp r - timestamp e0) div 60 = time_window_minutes d
        \<longrightarrow> (\<exists>evs ev. detectMultipleFailedLogins std_sort d (pre @ r # post) = Inr evs
                \<and> filter (\<lambda>e. ev_username e = u) evs = [ev]
                \<and> event_count ev = failed_login_threshold d
                \<and> first_occurrence ev = timestamp e0))"
proof (intro conjI impI)
  let ?g = "user_entries FAILED u (pre @ post)"
  have "int (length (std_sort ?g)) < failed_login_threshold d"
    using assms(2) sorts_by_timestamp_length [OF assms(1), of ?g] by simp
  then have "failed_findings d u (std_sort ?g) 0 = []"
    by (rule failed_findings_short)
  then show "\<exists>evs. detectMultipleFailedLogins std_sort d (pre @ post) = Inr evs
            \<and> filter (\<lambda>e. ev_username e = u) evs = []"
    using detectMultipleFailedLogins_user [OF assms(1), of d "pre @ post" u] by simp
next
  let ?g = "user_entries FAILED u (pre @ post)"
  let ?g' = "user_entries FAILED u (pre @ r # post)"
  let ?xs = "std_sort ?g'"
  assume a: "status r = FAILED \<and> username r = u
          \<and> e0 \<in> set ?g
          \<and> (\<forall>e \<in> set ?g. timestamp e0 \<le> timestamp e)
          \<and> timestamp e0 \<le> timestamp r
          \<and> (timestamp r - timestamp e0) div 60 = time_window_minutes d"
  then have r: "status r = FAILED" "username r = u" by simp_all
  have set': "set ?g' = insert r (set ?g)" using r by (rule user_entries_insert(2))
  have len': "length ?g' = Suc (length ?g)" using r by (rule user_entries_insert(3))
  have len: "length ?xs = length ?g'" using assms(1) by (rule sorts_by_timestamp_length)
  have set: "set ?xs = set ?g'" using assms(1) by (rule sorts_by_timestamp_set)
  have srt: "sorted (map timestamp ?xs)" using assms(1) by (rule sorts_by_timestamp_sorted)
  have ne: "?xs \<noteq> []" using len len' by auto
  then have x0: "?xs ! 0 \<in> set ?xs" by simp
  have least: "\<forall>e \<in> set ?xs. timestamp e0 \<le> timestamp e"
    using a set set' by auto
  have e0: "e0 \<in> set ?xs" using a set set' by simp
  have t0: "timestamp (?xs ! 0) = timestamp e0"
    using sorted_first_least [OF srt e0] least x0 by force
  have "\<bar>timestamp e0 - timestamp r\<bar> = timestamp r - timestamp e0"
    using a by linarith
  then have "\<bar>timestamp e0 - timestamp r\<bar> div 60 \<le> time_window_minutes d"
    using a by simp
  then have rwin: "isWithinTimeWindow d (timestamp e0) (timestamp r)"
    by (rule isWithinTimeWindow_if_close)
  have win: "\<forall>e \<in> set ?xs. in_window d (?xs ! 0) e"
    using assms(3) a rwin set set' by (auto simp: in_window_def t0)
  have thr: "failed_login_threshold d \<le> int (length ?xs)"
    using assms(2) len len' by simp
  have ff: "failed_findings d u ?xs 0 =
      [failed_event d u (?xs ! 0) (last ?xs) (int (length ?xs))]"
    using ne win thr by (rule failed_findings_whole)
  obtain evs where evs: "detectMultipleFailedLogins std_sort d (pre @ r # post) = Inr evs"
      "filter (\<lambda>e. ev_username e = u) evs = failed_findings d u ?xs 0"
    using detectMultipleFailedLogins_user [OF assms(1)] by blast
  show "\<exists>evs ev. detectMultipleFailedLogins std_sort d (pre @ r # post) = Inr evs
                \<and> filter (\<lambda>e. ev_username e = u) evs = [ev]
                \<and> event_count ev = failed_login_threshold d
                \<and> first_occurrence ev = timestamp e0"
    using evs ff t0 len len' assms(2) by simp
qed

theorem failed_logins_threshold_boundary_witness:
  "int (length (user_entries FAILED ''alice'' (burst ''alice'' ''10.0.0.1'' FAILED 1000 [0, 2, 4, 6])))
     = failed_login_threshold EventDetector_default - 1
   \<and> (\<exists>evs. detectMultipleFailedLogins (sort_key timestamp) EventDetector_default
          (burst ''alice'' ''10.0.0.1'' FAILED 1000 [0, 2, 4, 6]) = Inr evs
        \<and> filter (\<lambda>e. ev_username e = ''alice'') evs = [])
   \<and> (1659 - 1000) div 60 = time_window_minutes EventDetector_default
   \<and> (\<exists>evs ev. detectMultipleFailedLogins (sort_key timestamp) EventDetector_default
          (burst ''alice'' ''10.0.0.1'' FAILED 1000 [0, 2]
           @ \<lparr>timestamp = 1659, username = ''alice'', ip_address = ''10.0.0.9'', status = FAILED\<rparr>
           # burst ''alice'' ''10.0.0.1'' FAILED 1000 [4, 6]) = Inr evs
        \<and> filter (\<lambda>e. ev_username e = ''alice'') evs = [ev]
        \<and> event_count ev = 5 \<and> first_occurrence ev = 1000)"
proof -
  let ?d = "EventDetector_default"
  let ?pre = "burst ''alice'' ''10.0.0.1'' FAILED 1000 [0, 2]"
  let ?post = "burst ''alice'' ''10.0.0.1'' FAILED 1000 [4, 6]"
  let ?r = "\<lparr>timestamp = 1659, username = ''alice'', ip_address = ''10.0.0.9'', status = FAILED\<rparr>"
  let ?e0 = "\<lparr>timestamp = 1000, username = ''alice'', ip_address = ''10.0.0.1'', status = FAILED\<rparr>"
  have app: "burst ''alice'' ''10.0.0.1'' FAILED 1000 [0, 2, 4, 6] = ?pre @ ?post"
    by (simp add: burst_def)
  have h2: "int (length (user_entries FAILED ''alice'' (?pre @ ?post))) = failed_login_threshold ?d - 1"
    by (simp add: user_entries_def burst_def EventDetector_default_def)
  have h3: "\<forall>a \<in> set (user_entries FAILED ''alice'' (?pre @ ?post)).
      \<forall>b \<in> set (user_entries FAILED ''alice'' (?pre @ ?post)).
        isWithinTimeWindow ?d (timestamp a) (timestamp b)"
    by (simp add: user_entries_def burst_def isWithinTimeWindow_iff EventDetector_default_def)
  have h4: "status ?r = FAILED \<and> username ?r = ''alice''
          \<and> ?e0 \<in> set (user_entries FAILED ''alice'' (?pre @ ?post))
          \<and> (\<forall>e \<in> set (user_entries FAILED ''alice'' (?pre @ ?post)). timestamp ?e0 \<le> timestamp e)
          \<and> timestamp ?e0 \<le> timestamp ?r
          \<and> (timestamp ?r - timestamp ?e0) div 60 = time_window_minutes ?d"
    by (simp add: user_entries_def burst_def EventDetector_default_def)
  show ?thesis
    using failed_logins_threshold_boundary
      [OF sort_key_sorts_by_timestamp h2 h3, of ?r ?e0] h2 h4
    unfolding app
    by (simp add: EventDetector_default_def)
qed

section \<open>A single user\<close>

lemma group_by_user_same:
  assumes "\<forall>e \<in> set es. status e = st \<and> username e = u"
  shows "group_by_user st es [(u, old)] = [(u, old @ es)]"
  using assms by (induction es arbitrary: old) simp_all

lemma group_by_user_single:
  assumes "es \<noteq> []" and "\<forall>e \<in> set es. status e = st \<and> username e = u"
  shows "group_by_user st es [] = [(u, es)]"
proof (cases es)
  case Nil
  with assms(1) show ?thesis by simp
next
  case (Cons e es')
  then have "group_by_user st es [] = group_by_user st es' [(u, [e])]"
    using assms(2) by simp
  also have "\<dots> = [(u, [e] @ es')]"
    using assms(2) Cons by (intro group_by_user_same) simp
  finally show ?thesis using Cons by simp
qed

lemma detectMultipleFailedLogins_single:
  assumes "es \<noteq> []" and "\<forall>e \<in> set es. status e = FAILED \<and> username e = u"
  shows "detectMultipleFailedLogins std_sort d es = Inr (failed_findings d u (std_sort es) 0)"
  using group_by_user_single [OF assms]
  by (simp add: detectMultipleFailedLogins_Inr)

lemma sorted_timestamps_first:
  assumes "sorts_by_timestamp std_sort" and "xs \<noteq> []"
  shows "timestamp (std_sort xs ! 0) = Min (timestamp ` set xs)"
proof (rule sym, rule Min_eqI)
  have ne: "std_sort xs \<noteq> []"
    using assms sorts_by_timestamp_length [OF assms(1), of xs] by auto
  show "finite (timestamp ` set xs)" by simp
  show "timestamp (std_sort xs ! 0) \<in> timestamp ` set xs"
    using ne sorts_by_timestamp_set [OF assms(1), of xs] nth_mem [of 0 "std_sort xs"] by auto
  fix y assume "y \<in> timestamp ` set xs"
  then show "timestamp (std_sort xs ! 0) \<le> y"
    using sorted_first_least [OF sorts_by_timestamp_sorted [OF assms(1)], of _ xs]
      sorts_by_timestamp_set [OF assms(1), of xs] by auto
qed

lemma sorted_timestamps_last:
  assumes "sorts_by_timestamp std_sort" and "xs \<noteq> []"
  shows "timestamp (last (std_sort xs)) = Max (timestamp ` set xs)"
proof (rule sym, rule Max_eqI)
  have ne: "std_sort xs \<noteq> []"
    using assms sorts_by_timestamp_length [OF assms(1), of xs] by auto
  show "finite (timestamp ` set xs)" by simp
  show "timestamp (last (std_sort xs)) \<in> timestamp ` set xs"
    using ne sorts_by_timestamp_set [OF assms(1), of xs] last_in_set [of "std_sort xs"] by auto
  fix y assume "y \<in> timestamp ` set xs"
  then show "y \<le> timestamp (last (std_sort xs))"
    using sorted_last_greatest [OF sorts_by_timestamp_sorted [OF assms(1)], of _ xs]
      sorts_by_timestamp_set [OF assms(1), of xs] by auto
qed

section \<open>The example scenario\<close>

text \<open>
  Claim C2, as amended. Failed logins of one user at minute offsets 0 to 6, threshold 5
  and window 10 minutes: exactly one finding, which spans offsets 0 to 6 and whose count
  is 7, the number of entries in the window (the claim says 6).
\<close>

theorem failed_logins_example_scenario:
  assumes "sorts_by_timestamp std_sort"
    and "failed_login_threshold d = 5" and "time_window_minutes d = 10"
  shows "\<exists>ev. detectMultipleFailedLogins std_sort d
            (burst ''alice'' ip FAILED base [0, 1, 2, 3, 4, 5, 6]) = Inr [ev]
          \<and> event_count ev = 7 \<and> ev_username ev = ''alice''
          \<and> first_occurrence ev = base \<and> last_occurrence ev = base + 6 * 60"
proof -
  let ?es = "burst ''alice'' ip FAILED base [0, 1, 2, 3, 4, 5, 6]"
  let ?xs = "std_sort ?es"
  have ne0: "?es \<noteq> []" by (simp add: burst_def)
  have all: "\<forall>e \<in> set ?es. status e = FAILED \<and> username e = ''alice''"
    by (simp add: burst_def)
  have det: "detectMultipleFailedLogins std_sort d ?es = Inr (failed_findings d ''alice'' ?xs 0)"
    using ne0 all by (rule detectMultipleFailedLogins_single)
  have len: "length ?xs = 7"
    using sorts_by_timestamp_length [OF assms(1), of ?es] by (simp add: burst_def)
  have set: "set ?xs = set ?es" using assms(1) by (rule sorts_by_timestamp_set)
  have ne: "?xs \<noteq> []" using len by auto
  then have x0: "?xs ! 0 \<in> set ?es" using set nth_mem [of 0 ?xs] by auto
  have pair: "\<forall>a \<in> set ?es. \<forall>b \<in> set ?es. isWithinTimeWindow d (timestamp a) (timestamp b)"
    using assms(3) by (auto simp: burst_def intro!: isWithinTimeWindow_if_close)
  have win: "\<forall>e \<in> set ?xs. in_window d (?xs ! 0) e"
    using pair x0 set by (simp add: in_window_def)
  have thr: "failed_login_threshold d \<le> int (length ?xs)"
    using assms(2) len by simp
  have ff: "failed_findings d ''alice'' ?xs 0 =
      [failed_event d ''alice'' (?xs ! 0) (last ?xs) (int (length ?xs))]"
    using ne win thr by (rule failed_findings_whole)
  have mn: "timestamp (?xs ! 0) = base"
    using sorted_timestamps_first [OF assms(1) ne0] by (simp add: burst_def)
  have mx: "timestamp (last ?xs) = base + 6 * 60"
    using sorted_timestamps_last [OF assms(1) ne0] by (simp add: burst_def)
  show ?thesis
    using det ff mn mx len by simp
qed

theorem failed_logins_example_scenario_witness:
  "failed_login_threshold EventDetector_default = 5
   \<and> time_window_minutes EventDetector_default = 10
   \<and> (\<exists>ev. detectMultipleFailedLogins (sort_key timestamp) EventDetector_default
            (burst ''alice'' ''192.168.1.1'' FAILED 1768730400 [0, 1, 2, 3, 4, 5, 6]) = Inr [ev]
          \<and> event_count ev = 7 \<and> ev_username ev = ''alice''
          \<and> first_occurrence ev = 1768730400 \<and> last_occurrence ev = 1768730760)"
proof -
  have h2: "failed_login_threshold EventDetector_default = 5"
    and h3: "time_window_minutes EventDetector_default = 10"
    by (simp_all add: EventDetector_default_def)
  show ?thesis
    using failed_logins_example_scenario
      [OF sort_key_sorts_by_timestamp h2 h3, of "''192.168.1.1''" 1768730400] h2 h3
    by simp
qed

text \<open>
  The claim as stated fails: on the example input with the default configuration the one
  finding has count 7, not 6.
\<close>

theorem failed_logins_example_scenario_counterexample:
  "map event_count (projr (detectMultipleFailedLogins (sort_key timestamp) EventDetector_default
      (burst ''alice'' ''192.168.1.1'' FAILED 0 [0, 1, 2, 3, 4, 5, 6]))) = [7]
   \<and> map event_count (projr (detectMultipleFailedLogins (sort_key timestamp) EventDetector_default
      (burst ''alice'' ''192.168.1.1'' FAILED 0 [0, 1, 2, 3, 4, 5, 6]))) \<noteq> [6]"
  by (simp add: detectMultipleFailedLogins_def burst_def EventDetector_default_def
      failed_loop.simps scan_failed.simps isWithinTimeWindow_def time_point_minus_def time_since_epoch_count_def int64_wrap_def duration_cast_minutes_def
      vector_at_def failed_event_def SuspiciousEvent_ctor_def)

section \<open>The cluster behind a finding\<close>

lemma reach_prefix: "\<exists>rest. ys = reach d ws ys @ rest"
  unfolding reach_def by (metis takeWhile_dropWhile_id)

lemma reach_in_window: "e \<in> set (reach d ws ys) \<Longrightarrow> in_window d ws e"
  unfolding reach_def by (rule set_takeWhileD [THEN conjunct2])

lemma reach_stops:
  "ys = reach d ws ys @ rest \<Longrightarrow> rest = [] \<or> \<not> in_window d ws (hd rest)"
  unfolding reach_def
  by (metis takeWhile_dropWhile_id same_append_eq hd_dropWhile)

lemma anchor_cluster:
  assumes "a < length xs"
  shows "\<exists>post. xs = take a xs @ (xs ! a # reach d (xs ! a) (drop (a + 1) xs)) @ post
           \<and> (post = [] \<or> \<not> in_window d (xs ! a) (hd post))"
    and "last (xs ! a # reach d (xs ! a) (drop (a + 1) xs)) = xs ! (a + cluster_len d xs a)"
    and "int (length (xs ! a # reach d (xs ! a) (drop (a + 1) xs))) = 1 + int (cluster_len d xs a)"
proof -
  let ?r = "reach d (xs ! a) (drop (a + 1) xs)"
  obtain post where post: "drop (a + 1) xs = ?r @ post"
    using reach_prefix by blast
  have "xs = take a xs @ xs ! a # drop (a + 1) xs"
    using assms by (simp add: id_take_nth_drop)
  with post have "xs = take a xs @ (xs ! a # ?r) @ post" by simp
  moreover have "post = [] \<or> \<not> in_window d (xs ! a) (hd post)"
    using post by (rule reach_stops)
  ultimately show "\<exists>post. xs = take a xs @ (xs ! a # ?r) @ post
           \<and> (post = [] \<or> \<not> in_window d (xs ! a) (hd post))" by blast
  show "int (length (xs ! a # ?r)) = 1 + int (cluster_len d xs a)"
    by (simp add: cluster_len_def)
  show "last (xs ! a # ?r) = xs ! (a + cluster_len d xs a)"
  proof (cases "?r = []")
    case True
    then show ?thesis by (simp add: cluster_len_def)
  next
    case False
    have len: "length ?r = cluster_len d xs a" by (simp add: cluster_len_def)
    have "last ?r = ?r ! (length ?r - 1)" using False by (rule last_conv_nth)
    also have "\<dots> = (?r @ post) ! (length ?r - 1)"
      using False by (simp add: nth_append)
    also have "\<dots> = drop (a + 1) xs ! (length ?r - 1)" using post by simp
    also have "\<dots> = xs ! (a + 1 + (length ?r - 1))"
      using assms by (intro nth_drop) simp
    also have "a + 1 + (length ?r - 1) = a + cluster_len d xs a"
      using False len by (cases "length ?r") simp_all
    finally show ?thesis using False by simp
  qed
qed

lemma segment_first_least:
  assumes "sorted (map timestamp (pre @ cluster @ post))" and "e \<in> set cluster"
  shows "timestamp (hd cluster) \<le> timestamp e"
proof -
  have "sorted (map timestamp cluster)"
    using assms(1) by (simp add: sorted_append)
  then have "timestamp (cluster ! 0) \<le> timestamp e"
    using assms(2) by (rule sorted_first_least)
  moreover have "cluster \<noteq> []" using assms(2) by auto
  ultimately show ?thesis by (simp add: hd_conv_nth)
qed

section \<open>The address of a failed-login finding\<close>

text \<open>
  Claim C10. Every finding of the failed-login detector comes from a cluster: a
  non-empty run of consecutive entries of the user's sorted failed logins, made of the
  anchor and the entries the scan counted after it, up to the first entry outside the
  window. The finding counts and spans that run, and its address list is the single
  address of the anchor, the head and earliest entry of the run, whatever the addresses
  of the other entries.
\<close>

theorem failed_login_finding_address_is_anchor:
  assumes "sorts_by_timestamp std_sort"
  shows "\<exists>evs. detectMultipleFailedLogins std_sort d entries = Inr evs \<and>
     (\<forall>ev \<in> set evs. \<exists>pre cluster post.
         std_sort (user_entries FAILED (ev_username ev) entries) = pre @ cluster @ post
       \<and> cluster \<noteq> []
       \<and> (\<forall>e \<in> set cluster. timestamp (hd cluster) \<le> timestamp e)
       \<and> (\<forall>e \<in> set (tl cluster).
             isWithinTimeWindow d (timestamp (hd cluster)) (timestamp e))
       \<and> (post = [] \<or> \<not> isWithinTimeWindow d (timestamp (hd cluster)) (timestamp (hd post)))
       \<and> event_count ev = int (length cluster)
       \<and> failed_login_threshold d \<le> event_count ev
       \<and> first_occurrence ev = timestamp (hd cluster)
       \<and> last_occurrence ev = timestamp (last cluster)
       \<and> ip_addresses ev = [ip_address (hd cluster)])"
proof -
  obtain evs where evs: "detectMultipleFailedLogins std_sort d entries = Inr evs"
    by (simp add: detectMultipleFailedLogins_Inr)
  have "\<exists>pre cluster post.
         std_sort (user_entries FAILED (ev_username ev) entries) = pre @ cluster @ post
       \<and> cluster \<noteq> []
       \<and> (\<forall>e \<in> set cluster. timestamp (hd cluster) \<le> timestamp e)
       \<and> (\<forall>e \<in> set (tl cluster).
             isWithinTimeWindow d (timestamp (hd cluster)) (timestamp e))
       \<and> (post = [] \<or> \<not> isWithinTimeWindow d (timestamp (hd cluster)) (timestamp (hd post)))
       \<and> event_count ev = int (length cluster)
       \<and> failed_login_threshold d \<le> event_count ev
       \<and> first_occurrence ev = timestamp (hd cluster)
       \<and> last_occurrence ev = timestamp (last cluster)
       \<and> ip_addresses ev = [ip_address (hd cluster)]" if ev: "ev \<in> set evs" for ev
  proof -
    let ?u = "ev_username ev"
    let ?xs = "std_sort (user_entries FAILED ?u entries)"
    have "filter (\<lambda>e. ev_username e = ?u) evs = failed_findings d ?u ?xs 0"
      using detectMultipleFailedLogins_user [OF assms, of d entries ?u] evs by simp
    moreover have "ev \<in> set (filter (\<lambda>e. ev_username e = ?u) evs)" using ev by simp
    ultimately have "ev \<in> set (failed_findings d ?u ?xs 0)" by simp
    then obtain a where a: "a < length ?xs"
        "failed_login_threshold d \<le> 1 + int (cluster_len d ?xs a)"
        "ev = failed_event d ?u (?xs ! a) (?xs ! (a + cluster_len d ?xs a))
                (1 + int (cluster_len d ?xs a))"
      using failed_findings_cases by blast
    let ?c = "?xs ! a # reach d (?xs ! a) (drop (a + 1) ?xs)"
    obtain post where post: "?xs = take a ?xs @ ?c @ post"
        "post = [] \<or> \<not> in_window d (?xs ! a) (hd post)"
      using anchor_cluster(1) [OF a(1), of d] by blast
    have srt: "sorted (map timestamp (take a ?xs @ ?c @ post))"
      using sorts_by_timestamp_sorted [OF assms, of "user_entries FAILED ?u entries"] post(1)
      by simp
    have least: "\<forall>e \<in> set ?c. timestamp (hd ?c) \<le> timestamp e"
      using segment_first_least [OF srt] by blast
    have win: "\<forall>e \<in> set (tl ?c). isWithinTimeWindow d (timestamp (hd ?c)) (timestamp e)"
      using reach_in_window [of _ d "?xs ! a"] by (simp add: in_window_def)
    have stop: "post = [] \<or> \<not> isWithinTimeWindow d (timestamp (hd ?c)) (timestamp (hd post))"
      using post(2) by (simp add: in_window_def)
    have fields: "event_count ev = 1 + int (cluster_len d ?xs a)"
        "first_occurrence ev = timestamp (?xs ! a)"
        "last_occurrence ev = timestamp (?xs ! (a + cluster_len d ?xs a))"
        "ip_addresses ev = [ip_address (?xs ! a)]"
      by (subst a(3), simp)+
    have cnt: "event_count ev = int (length ?c)"
      using fields(1) anchor_cluster(3) [OF a(1), of d] by simp
    have thr: "failed_login_threshold d \<le> event_count ev"
      using a(2) fields(1) by simp
    have fst: "first_occurrence ev = timestamp (hd ?c)" using fields(2) by simp
    have lst: "last_occurrence ev = timestamp (last ?c)"
      using fields(3) anchor_cluster(2) [OF a(1), of d] by simp
    have ip: "ip_addresses ev = [ip_address (hd ?c)]" using fields(4) by simp
    have ne: "?c \<noteq> []" by simp
    from post(1) ne least win stop cnt thr fst lst ip show ?thesis by blast
  qed
  with evs show ?thesis by blast
qed

theorem failed_login_finding_address_is_anchor_witness:
  "detectMultipleFailedLogins (sort_key timestamp)
       (EventDetector_default\<lparr>failed_login_threshold := 2\<rparr>)
       (burst ''alice'' ''10.0.0.2'' FAILED 1000 [1] @ burst ''alice'' ''10.0.0.1'' FAILED 1000 [0])
     = Inr [failed_event (EventDetector_default\<lparr>failed_login_threshold := 2\<rparr>) ''alice''
              \<lparr>timestamp = 1000, username = ''alice'', ip_address = ''10.0.0.1'', status = FAILED\<rparr>
              \<lparr>timestamp = 1060, username = ''alice'', ip_address = ''10.0.0.2'', status = FAILED\<rparr>
              2]
   \<and> (\<exists>pre cluster post.
         sort_key timestamp (user_entries FAILED ''alice''
           (burst ''alice'' ''10.0.0.2'' FAILED 1000 [1] @ burst ''alice'' ''10.0.0.1'' FAILED 1000 [0]))
           = pre @ cluster @ post
       \<and> int (length cluster) = 2
       \<and> timestamp (hd cluster) = 1000
       \<and> timestamp (last cluster) = 1060
       \<and> [ip_address (hd cluster)] = [''10.0.0.1''])"
proof -
  let ?d = "EventDetector_default\<lparr>failed_login_threshold := 2\<rparr>"
  let ?es = "burst ''alice'' ''10.0.0.2'' FAILED 1000 [1] @ burst ''alice'' ''10.0.0.1'' FAILED 1000 [0]"
  let ?E = "failed_event ?d ''alice''
              \<lparr>timestamp = 1000, username = ''alice'', ip_address = ''10.0.0.1'', status = FAILED\<rparr>
              \<lparr>timestamp = 1060, username = ''alice'', ip_address = ''10.0.0.2'', status = FAILED\<rparr>
              2"
  have run: "detectMultipleFailedLogins (sort_key timestamp) ?d ?es = Inr [?E]"
    by (simp add: detectMultipleFailedLogins_def burst_def EventDetector_default_def
        failed_loop.simps scan_failed.simps isWithinTimeWindow_def time_point_minus_def time_since_epoch_count_def int64_wrap_def duration_cast_minutes_def
        vector_at_def)
  from failed_login_finding_address_is_anchor [OF sort_key_sorts_by_timestamp, of ?d ?es]
  obtain evs where evs: "detectMultipleFailedLogins (sort_key timestamp) ?d ?es = Inr evs"
    and every: "\<forall>ev \<in> set evs. \<exists>pre cluster post.
         sort_key timestamp (user_entries FAILED (ev_username ev) ?es) = pre @ cluster @ post
       \<and> cluster \<noteq> []
       \<and> (\<forall>e \<in> set cluster. timestamp (hd cluster) \<le> timestamp e)
       \<and> (\<forall>e \<in> set (tl cluster).
             isWithinTimeWindow ?d (timestamp (hd cluster)) (timestamp e))
       \<and> (post = [] \<or> \<not> isWithinTimeWindow ?d (timestamp (hd cluster)) (timestamp (hd post)))
       \<and> event_count ev = int (length cluster)
       \<and> failed_login_threshold ?d \<le> event_count ev
       \<and> first_occurrence ev = timestamp (hd cluster)
       \<and> last_occurrence ev = timestamp (last cluster)
       \<and> ip_addresses ev = [ip_address (hd cluster)]"
    by blast
  from evs run have "evs = [?E]" by (simp only: sum.inject)
  then have "?E \<in> set evs" by (simp only: list.set_intros)
  from every [rule_format, OF this]
  obtain pre cluster post where
      "sort_key timestamp (user_entries FAILED (ev_username ?E) ?es) = pre @ cluster @ post"
      "event_count ?E = int (length cluster)"
      "first_occurrence ?E = timestamp (hd cluster)"
      "last_occurrence ?E = timestamp (last cluster)"
      "ip_addresses ?E = [ip_address (hd cluster)]"
    by blast
  then have "sort_key timestamp (user_entries FAILED ''alice'' ?es) = pre @ cluster @ post
       \<and> int (length cluster) = 2
       \<and> timestamp (hd cluster) = 1000
       \<and> timestamp (last cluster) = 1060
       \<and> [ip_address (hd cluster)] = [''10.0.0.1'']"
    by simp
  with run show ?thesis by blast
qed

section \<open>Properties of the multi-address scan\<close>

lemma set_set_insert: "set (set_insert x s) = insert x (set s)"
  by (induction s) auto

lemma sorted_set_insert: "sorted_wrt (<) s \<Longrightarrow> sorted_wrt (<) (set_insert x s)"
proof (induction s)
  case Nil
  then show ?case by simp
next
  case (Cons y ys)
  show ?case
  proof (cases "x = y")
    case True
    with Cons.prems show ?thesis by simp
  next
    case ne: False
    show ?thesis
    proof (cases "x < y")
      case True
      with Cons.prems ne show ?thesis by (auto intro: less_trans)
    next
      case False
      with ne have "y < x" by simp
      with Cons ne False show ?thesis by (auto simp: set_set_insert)
    qed
  qed
qed

lemma set_fold_set_insert:
  "set (fold (\<lambda>e ips. set_insert (ip_address e) ips) ys s) = ip_address ` set ys \<union> set s"
  by (induction ys arbitrary: s) (auto simp: set_set_insert)

lemma sorted_fold_set_insert:
  "sorted_wrt (<) s \<Longrightarrow> sorted_wrt (<) (fold (\<lambda>e ips. set_insert (ip_address e) ips) ys s)"
  by (induction ys arbitrary: s) (simp_all add: sorted_set_insert)

lemma set_window_ips:
  "set (window_ips d xs i) = ip_address ` set (xs ! i # reach d (xs ! i) (drop (i + 1) xs))"
  by (simp add: window_ips_def set_fold_set_insert)

lemma sorted_window_ips: "sorted_wrt (<) (window_ips d xs i)"
  unfolding window_ips_def by (rule sorted_fold_set_insert) simp

lemma fold_push_back: "fold (\<lambda>ip v. v @ [ip]) ips acc = acc @ ips"
  by (induction ips arbitrary: acc) simp_all

lemma ip_event_fields [simp]:
  "ev_type (ip_event d u ws we ips) = MULTIPLE_IP_ADDRESSES"
  "ev_username (ip_event d u ws we ips) = u"
  "ip_addresses (ip_event d u ws we ips) = ips"
  "first_occurrence (ip_event d u ws we ips) = timestamp ws"
  "last_occurrence (ip_event d u ws we ips) = timestamp we"
  "event_count (ip_event d u ws we ips) = int (length ips)"
  by (simp_all add: ip_event_def SuspiciousEvent_ctor_def fold_push_back)

lemma scan_ips_reach:
  "scan_ips d xs ws j ips w =
     (fold (\<lambda>e ips. set_insert (ip_address e) ips) (reach d ws (drop j xs)) ips,
      if reach d ws (drop j xs) = [] then w else j + length (reach d ws (drop j xs)) - 1)"
proof (induction d xs ws j ips w rule: scan_ips.induct)
  case (1 d xs ws j ips w)
  show ?case
  proof (cases "j < length xs")
    case False
    then show ?thesis by (simp add: scan_ips.simps [of d xs ws j])
  next
    case True
    then have dr: "drop j xs = xs ! j # drop (j + 1) xs"
      by (simp add: Cons_nth_drop_Suc)
    show ?thesis
    proof (cases "isWithinTimeWindow d (timestamp ws) (timestamp (xs ! j))")
      case False
      with True show ?thesis
        by (simp add: scan_ips.simps [of d xs ws j] dr reach_Cons in_window_def)
    next
      case within: True
      have "scan_ips d xs ws j ips w =
          scan_ips d xs ws (j + 1) (set_insert (ip_address (xs ! j)) ips) j"
        using True within by (simp add: scan_ips.simps [of d xs ws j])
      also have "\<dots> =
          (fold (\<lambda>e ips. set_insert (ip_address e) ips) (reach d ws (drop (j + 1) xs))
             (set_insert (ip_address (xs ! j)) ips),
           if reach d ws (drop (j + 1) xs) = [] then j
           else j + 1 + length (reach d ws (drop (j + 1) xs)) - 1)"
        using "1.IH" True within by simp
      finally show ?thesis
        using within by (simp add: dr reach_Cons in_window_def)
    qed
  qed
qed

lemma scan_ips_anchor:
  "scan_ips d xs (xs ! i) (Suc i) (set_insert (ip_address (xs ! i)) []) i =
     (window_ips d xs i, i + cluster_len d xs i)"
  by (simp add: scan_ips_reach cluster_len_def window_ips_def)

lemma ip_loop_end: "\<not> i < length xs \<Longrightarrow> ip_loop d u xs i acc = Inr acc"
  by (simp add: ip_loop.simps [of d u xs i])

lemma ip_loop_step:
  assumes "i < length xs"
  shows "ip_loop d u xs i acc =
     (if 2 \<le> length (window_ips d xs i)
      then ip_loop d u xs (i + cluster_len d xs i + 1)
             (acc @ [ip_event d u (xs ! i) (xs ! (i + cluster_len d xs i)) (window_ips d xs i)])
      else ip_loop d u xs (i + 1) acc)"
proof -
  have "scan_ips d xs (xs ! i) (Suc i) [ip_address (xs ! i)] i =
     (window_ips d xs i, i + cluster_len d xs i)"
    using scan_ips_anchor [of d xs i] by simp
  then show ?thesis
    using assms cluster_len_less [OF assms, of d]
    by (simp add: ip_loop.simps [of d u xs i] vector_at_def Let_def)
qed

lemma ip_loop_total:
  "\<exists>new. \<forall>acc. ip_loop d u xs i acc = Inr (acc @ new)"
proof (induction "length xs - i" arbitrary: i rule: less_induct)
  case less
  show ?case
  proof (cases "i < length xs")
    case False
    then have "\<forall>acc. ip_loop d u xs i acc = Inr (acc @ [])"
      by (simp add: ip_loop_end)
    then show ?thesis by blast
  next
    case True
    let ?n = "cluster_len d xs i"
    show ?thesis
    proof (cases "2 \<le> length (window_ips d xs i)")
      case hit: True
      have "length xs - (i + ?n + 1) < length xs - i" using True by simp
      from less [OF this] obtain new
        where new: "\<forall>acc. ip_loop d u xs (i + ?n + 1) acc = Inr (acc @ new)" by blast
      have "\<forall>acc. ip_loop d u xs i acc =
          Inr (acc @ (ip_event d u (xs ! i) (xs ! (i + ?n)) (window_ips d xs i) # new))"
        using hit new by (simp add: ip_loop_step [OF True])
      then show ?thesis by blast
    next
      case miss: False
      have "length xs - (i + 1) < length xs - i" using True by simp
      from less [OF this] obtain new
        where new: "\<forall>acc. ip_loop d u xs (i + 1) acc = Inr (acc @ new)" by blast
      have "\<forall>acc. ip_loop d u xs i acc = Inr (acc @ new)"
        using miss new by (simp add: ip_loop_step [OF True])
      then show ?thesis by blast
    qed
  qed
qed

lemma ip_loop_Inr: "ip_loop d u xs i acc = Inr (acc @ ip_findings d u xs i)"
proof -
  obtain new where new: "\<forall>acc. ip_loop d u xs i acc = Inr (acc @ new)"
    using ip_loop_total by blast
  then have "ip_findings d u xs i = new"
    by (simp add: ip_findings_def)
  with new show ?thesis by simp
qed

lemma ip_findings_end: "\<not> i < length xs \<Longrightarrow> ip_findings d u xs i = []"
  by (simp add: ip_findings_def ip_loop_end)

lemma ip_findings_step:
  assumes "i < length xs"
  shows "ip_findings d u xs i =
     (if 2 \<le> length (window_ips d xs i)
      then ip_event d u (xs ! i) (xs ! (i + cluster_len d xs i)) (window_ips d xs i)
           # ip_findings d u xs (i + cluster_len d xs i + 1)
      else ip_findings d u xs (i + 1))"
  using ip_loop_step [OF assms, of d u "[]"]
  by (simp add: ip_loop_Inr split: if_splits)

lemma ip_findings_cases:
  "e \<in> set (ip_findings d u xs i) \<Longrightarrow>
   \<exists>a. i \<le> a \<and> a < length xs \<and> 2 \<le> length (window_ips d xs a) \<and>
       e = ip_event d u (xs ! a) (xs ! (a + cluster_len d xs a)) (window_ips d xs a)"
proof (induction "length xs - i" arbitrary: i rule: less_induct)
  case less
  show ?case
  proof (cases "i < length xs")
    case False
    with less.prems show ?thesis by (simp add: ip_findings_end)
  next
    case True
    let ?n = "cluster_len d xs i"
    show ?thesis
    proof (cases "2 \<le> length (window_ips d xs i)")
      case hit: True
      then have "e = ip_event d u (xs ! i) (xs ! (i + ?n)) (window_ips d xs i)
          \<or> e \<in> set (ip_findings d u xs (i + ?n + 1))"
        using less.prems by (simp add: ip_findings_step [OF True])
      then show ?thesis
      proof
        assume "e = ip_event d u (xs ! i) (xs ! (i + ?n)) (window_ips d xs i)"
        with True hit show ?thesis by blast
      next
        assume rest: "e \<in> set (ip_findings d u xs (i + ?n + 1))"
        have "length xs - (i + ?n + 1) < length xs - i" using True by simp
        from less.hyps [OF this rest] obtain a where
          a: "i + ?n + 1 \<le> a" "a < length xs" "2 \<le> length (window_ips d xs a)"
            "e = ip_event d u (xs ! a) (xs ! (a + cluster_len d xs a)) (window_ips d xs a)"
          by blast
        from a(1) have "i \<le> a" by simp
        with a show ?thesis by blast
      qed
    next
      case miss: False
      then have rest: "e \<in> set (ip_findings d u xs (i + 1))"
        using less.prems by (simp add: ip_findings_step [OF True])
      have "length xs - (i + 1) < length xs - i" using True by simp
      from less.hyps [OF this rest] obtain a where
        a: "i + 1 \<le> a" "a < length xs" "2 \<le> length (window_ips d xs a)"
          "e = ip_event d u (xs ! a) (xs ! (a + cluster_len d xs a)) (window_ips d xs a)"
        by blast
      from a(1) have "i \<le> a" by simp
      with a show ?thesis by blast
    qed
  qed
qed

lemma ip_findings_username:
  "e \<in> set (ip_findings d u xs i) \<Longrightarrow> ev_username e = u"
  by (auto dest: ip_findings_cases)

lemma ip_users_Inr:
  "ip_users std_sort d m acc =
     Inr (acc @ concat (map (\<lambda>(u, g). ip_findings d u (std_sort g) 0) m))"
  by (induction m arbitrary: acc) (auto simp: ip_loop_Inr)

lemma detectMultipleIPAddresses_Inr:
  "detectMultipleIPAddresses std_sort d entries =
     Inr (concat (map (\<lambda>(u, g). ip_findings d u (std_sort g) 0)
            (group_by_user SUCCESS entries [])))"
  by (simp add: detectMultipleIPAddresses_def ip_users_Inr)

lemma detectMultipleIPAddresses_user:
  assumes "sorts_by_timestamp std_sort"
  shows "\<exists>evs. detectMultipleIPAddresses std_sort d entries = Inr evs \<and>
     filter (\<lambda>e. ev_username e = u) evs =
       ip_findings d u (std_sort (user_entries SUCCESS u entries)) 0"
proof -
  let ?m = "group_by_user SUCCESS entries []"
  have s: "sorted_wrt (<) (map fst ?m)" by (rule group_by_user_sorted) simp
  have "filter (\<lambda>e. ev_username e = u)
          (concat (map (\<lambda>(k, g). ip_findings d k (std_sort g) 0) ?m)) =
        (case map_of ?m u of None \<Rightarrow> [] | Some g \<Rightarrow> ip_findings d u (std_sort g) 0)"
    using s by (rule concat_user_filter) (rule ip_findings_username)
  also have "\<dots> = ip_findings d u (std_sort (user_entries SUCCESS u entries)) 0"
    using sorts_by_timestamp_Nil [OF assms]
    by (simp add: group_by_user_lookup user_entries_def ip_findings_end)
  finally show ?thesis
    by (simp add: detectMultipleIPAddresses_Inr)
qed


section \<open>The addresses of a multi-address finding\<close>

lemma window_ips_sorted_list:
  "window_ips d xs i =
     sorted_list_of_set (ip_address ` set (xs ! i # reach d (xs ! i) (drop (i + 1) xs)))"
proof -
  have "sorted (window_ips d xs i)" "distinct (window_ips d xs i)"
    using sorted_window_ips [of d xs i] by (simp_all add: strict_sorted_iff)
  then have "sorted_list_of_set (set (window_ips d xs i)) = window_ips d xs i"
    by (rule sorted_list_of_set.idem_if_sorted_distinct)
  then show ?thesis by (simp only: set_window_ips)
qed

lemma length_window_ips:
  "length (window_ips d xs i) =
     card (ip_address ` set (xs ! i # reach d (xs ! i) (drop (i + 1) xs)))"
proof -
  have "distinct (window_ips d xs i)"
    using sorted_window_ips [of d xs i] by (simp add: strict_sorted_iff)
  then have "card (set (window_ips d xs i)) = length (window_ips d xs i)"
    by (rule distinct_card)
  then show ?thesis by (simp only: set_window_ips)
qed

text \<open>
  Claim C7. Every finding of the multi-address detector comes from a cluster: a non-empty
  run of consecutive entries of the user's sorted successful logins, made of the anchor
  and the entries the scan counted after it, up to the first entry outside the window.
  The address list of the finding is the set of the addresses of that run in ascending
  order without repetition, and its count is the number of those addresses.
\<close>

theorem multi_ip_finding_addresses:
  assumes "sorts_by_timestamp std_sort"
  shows "\<exists>evs. detectMultipleIPAddresses std_sort d entries = Inr evs \<and>
     (\<forall>ev \<in> set evs. \<exists>pre cluster post.
         std_sort (user_entries SUCCESS (ev_username ev) entries) = pre @ cluster @ post
       \<and> cluster \<noteq> []
       \<and> (\<forall>e \<in> set (tl cluster).
             isWithinTimeWindow d (timestamp (hd cluster)) (timestamp e))
       \<and> (post = [] \<or> \<not> isWithinTimeWindow d (timestamp (hd cluster)) (timestamp (hd post)))
       \<and> first_occurrence ev = timestamp (hd cluster)
       \<and> last_occurrence ev = timestamp (last cluster)
       \<and> ip_addresses ev = sorted_list_of_set (ip_address ` set cluster)
       \<and> event_count ev = int (card (ip_address ` set cluster))
       \<and> 2 \<le> event_count ev)"
proof -
  obtain evs where evs: "detectMultipleIPAddresses std_sort d entries = Inr evs"
    by (simp add: detectMultipleIPAddresses_Inr)
  have "\<exists>pre cluster post.
         std_sort (user_entries SUCCESS (ev_username ev) entries) = pre @ cluster @ post
       \<and> cluster \<noteq> []
       \<and> (\<forall>e \<in> set (tl cluster).
             isWithinTimeWindow d (timestamp (hd cluster)) (timestamp e))
       \<and> (post = [] \<or> \<not> isWithinTimeWindow d (timestamp (hd cluster)) (timestamp (hd post)))
       \<and> first_occurrence ev = timestamp (hd cluster)
       \<and> last_occurrence ev = timestamp (last cluster)
       \<and> ip_addresses ev = sorted_list_of_set (ip_address ` set cluster)
       \<and> event_count ev = int (card (ip_address ` set cluster))
       \<and> 2 \<le> event_count ev" if ev: "ev \<in> set evs" for ev
  proof -
    let ?u = "ev_username ev"
    let ?xs = "std_sort (user_entries SUCCESS ?u entries)"
    have "filter (\<lambda>e. ev_username e = ?u) evs = ip_findings d ?u ?xs 0"
      using detectMultipleIPAddresses_user [OF assms, of d entries ?u] evs by simp
    moreover have "ev \<in> set (filter (\<lambda>e. ev_username e = ?u) evs)" using ev by simp
    ultimately have "ev \<in> set (ip_findings d ?u ?xs 0)" by simp
    then obtain a where a: "a < length ?xs" "2 \<le> length (window_ips d ?xs a)"
        "ev = ip_event d ?u (?xs ! a) (?xs ! (a + cluster_len d ?xs a)) (window_ips d ?xs a)"
      using ip_findings_cases by blast
    let ?c = "?xs ! a # reach d (?xs ! a) (drop (a + 1) ?xs)"
    obtain post where post: "?xs = take a ?xs @ ?c @ post"
        "post = [] \<or> \<not> in_window d (?xs ! a) (hd post)"
      using anchor_cluster(1) [OF a(1), of d] by blast
    have win: "\<forall>e \<in> set (tl ?c). isWithinTimeWindow d (timestamp (hd ?c)) (timestamp e)"
      using reach_in_window [of _ d "?xs ! a"] by (simp add: in_window_def)
    have stop: "post = [] \<or> \<not> isWithinTimeWindow d (timestamp (hd ?c)) (timestamp (hd post))"
      using post(2) by (simp add: in_window_def)
    have fields: "event_count ev = int (length (window_ips d ?xs a))"
        "first_occurrence ev = timestamp (?xs ! a)"
        "last_occurrence ev = timestamp (?xs ! (a + cluster_len d ?xs a))"
        "ip_addresses ev = window_ips d ?xs a"
      by (subst a(3), simp)+
    have fst: "first_occurrence ev = timestamp (hd ?c)" using fields(2) by simp
    have lst: "last_occurrence ev = timestamp (last ?c)"
      using fields(3) anchor_cluster(2) [OF a(1), of d] by simp
    have ips: "ip_addresses ev = sorted_list_of_set (ip_address ` set ?c)"
      using fields(4) by (simp only: window_ips_sorted_list)
    have cnt: "event_count ev = int (card (ip_address ` set ?c))"
      using fields(1) by (simp only: length_window_ips)
    have two: "2 \<le> event_count ev" using fields(1) a(2) by simp
    have ne: "?c \<noteq> []" by simp
    from post(1) ne win stop fst lst ips cnt two show ?thesis by blast
  qed
  with evs show ?thesis by blast
qed

theorem multi_ip_finding_addresses_witness:
  "detectMultipleIPAddresses (sort_key timestamp) EventDetector_default
       (burst ''carol'' ''172.16.0.9'' SUCCESS 1000 [0, 5]
        @ burst ''carol'' ''10.0.0.1'' SUCCESS 1000 [2])
     = Inr [ip_event EventDetector_default ''carol''
              \<lparr>timestamp = 1000, username = ''carol'', ip_address = ''172.16.0.9'', status = SUCCESS\<rparr>
              \<lparr>timestamp = 1300, username = ''carol'', ip_address = ''172.16.0.9'', status = SUCCESS\<rparr>
              [''10.0.0.1'', ''172.16.0.9'']]
   \<and> (\<exists>pre cluster post.
         sort_key timestamp (user_entries SUCCESS ''carol''
           (burst ''carol'' ''172.16.0.9'' SUCCESS 1000 [0, 5]
            @ burst ''carol'' ''10.0.0.1'' SUCCESS 1000 [2]))
           = pre @ cluster @ post
       \<and> timestamp (hd cluster) = 1000
       \<and> timestamp (last cluster) = 1300
       \<and> sorted_list_of_set (ip_address ` set cluster) = [''10.0.0.1'', ''172.16.0.9'']
       \<and> int (card (ip_address ` set cluster)) = 2)"
proof -
  let ?d = "EventDetector_default"
  let ?es = "burst ''carol'' ''172.16.0.9'' SUCCESS 1000 [0, 5]
        @ burst ''carol'' ''10.0.0.1'' SUCCESS 1000 [2]"
  let ?E = "ip_event ?d ''carol''
              \<lparr>timestamp = 1000, username = ''carol'', ip_address = ''172.16.0.9'', status = SUCCESS\<rparr>
              \<lparr>timestamp = 1300, username = ''carol'', ip_address = ''172.16.0.9'', status = SUCCESS\<rparr>
              [''10.0.0.1'', ''172.16.0.9'']"
  have run: "detectMultipleIPAddresses (sort_key timestamp) ?d ?es = Inr [?E]"
    by (simp add: detectMultipleIPAddresses_def burst_def EventDetector_default_def
        ip_loop.simps scan_ips.simps isWithinTimeWindow_def time_point_minus_def time_since_epoch_count_def int64_wrap_def duration_cast_minutes_def
        vector_at_def)
  from multi_ip_finding_addresses [OF sort_key_sorts_by_timestamp, of ?d ?es]
  obtain evs where evs: "detectMultipleIPAddresses (sort_key timestamp) ?d ?es = Inr evs"
    and every: "\<forall>ev \<in> set evs. \<exists>pre cluster post.
         sort_key timestamp (user_entries SUCCESS (ev_username ev) ?es) = pre @ cluster @ post
       \<and> cluster \<noteq> []
       \<and> (\<forall>e \<in> set (tl cluster).
             isWithinTimeWindow ?d (timestamp (hd cluster)) (timestamp e))
       \<and> (post = [] \<or> \<not> isWithinTimeWindow ?d (timestamp (hd cluster)) (timestamp (hd post)))
       \<and> first_occurrence ev = timestamp (hd cluster)
       \<and> last_occurrence ev = timestamp (last cluster)
       \<and> ip_addresses ev = sorted_list_of_set (ip_address ` set cluster)
       \<and> event_count ev = int (card (ip_address ` set cluster))
       \<and> 2 \<le> event_count ev"
    by blast
  from evs run have "evs = [?E]" by (simp only: sum.inject)
  then have "?E \<in> set evs" by (simp only: list.set_intros)
  from every [rule_format, OF this]
  obtain pre cluster post where
      f1: "sort_key timestamp (user_entries SUCCESS (ev_username ?E) ?es) = pre @ cluster @ post"
      and f2: "first_occurrence ?E = timestamp (hd cluster)"
      and f3: "last_occurrence ?E = timestamp (last cluster)"
      and f4: "ip_addresses ?E = sorted_list_of_set (ip_address ` set cluster)"
      and f5: "event_count ?E = int (card (ip_address ` set cluster))"
    by blast
  have g1: "sort_key timestamp (user_entries SUCCESS ''carol'' ?es) = pre @ cluster @ post"
    using f1 by simp
  have g2: "timestamp (hd cluster) = 1000" using f2 [symmetric] by simp
  have g3: "timestamp (last cluster) = 1300" using f3 [symmetric] by simp
  have g4: "sorted_list_of_set (ip_address ` set cluster) = [''10.0.0.1'', ''172.16.0.9'']"
    using f4 [symmetric] by simp
  have g5: "int (card (ip_address ` set cluster)) = 2" using f5 [symmetric] by simp
  from g1 g2 g3 g4 g5
  have "sort_key timestamp (user_entries SUCCESS ''carol'' ?es) = pre @ cluster @ post
       \<and> timestamp (hd cluster) = 1000
       \<and> timestamp (last cluster) = 1300
       \<and> sorted_list_of_set (ip_address ` set cluster) = [''10.0.0.1'', ''172.16.0.9'']
       \<and> int (card (ip_address ` set cluster)) = 2"
    by (intro conjI)
  with run show ?thesis by blast
qed

section \<open>Two logins from two addresses\<close>





section \<open>The after-hours detector\<close>

lemma outside_hours_loop_eq:
  "outside_hours_loop tm_hour d entries acc =
     acc @ map (\<lambda>e. outside_hours_event d e (tm_hour (timestamp e)))
             (filter (outside_hours tm_hour d) entries)"
  by (induction entries arbitrary: acc)
    (simp_all add: outside_hours_def getHourOfDay_def Let_def)

lemma outside_hours_event_fields [simp]:
  "ev_type (outside_hours_event d e h) = LOGIN_OUTSIDE_BUSINESS_HOURS"
  "ev_username (outside_hours_event d e h) = username e"
  "ip_addresses (outside_hours_event d e h) = [ip_address e]"
  "first_occurrence (outside_hours_event d e h) = timestamp e"
  "last_occurrence (outside_hours_event d e h) = timestamp e"
  "event_count (outside_hours_event d e h) = 1"
  by (simp_all add: outside_hours_event_def SuspiciousEvent_ctor_def)

text \<open>
  Claim C5. The after-hours detector returns, in input order, one finding for each entry
  that is a successful login whose local hour is below the start or at or above the end
  of business hours, and nothing for any other entry. Each finding starts and ends at
  the timestamp of its entry and has count 1. So a successful login at hour
  \<open>business_hour_end\<close> is flagged, one at \<open>business_hour_end - 1\<close> is not (business hours
  being a non-empty interval), and an entry that is not a successful login never is.
\<close>

theorem outside_hours_findings:
  "detectLoginsOutsideBusinessHours tm_hour d entries =
     map (\<lambda>e. outside_hours_event d e (tm_hour (timestamp e)))
       (filter (\<lambda>e. status e = SUCCESS \<and>
                  (tm_hour (timestamp e) < business_hour_start d
                   \<or> business_hour_end d \<le> tm_hour (timestamp e))) entries)
   \<and> first_occurrence (outside_hours_event d e h) = timestamp e
   \<and> last_occurrence (outside_hours_event d e h) = timestamp e
   \<and> event_count (outside_hours_event d e h) = 1
   \<and> (status e = SUCCESS \<and> tm_hour (timestamp e) = business_hour_end d \<longrightarrow>
        detectLoginsOutsideBusinessHours tm_hour d [e] =
          [outside_hours_event d e (business_hour_end d)])
   \<and> (status e = SUCCESS \<and> business_hour_start d < business_hour_end d
        \<and> tm_hour (timestamp e) = business_hour_end d - 1 \<longrightarrow>
        detectLoginsOutsideBusinessHours tm_hour d [e] = [])
   \<and> (status e \<noteq> SUCCESS \<longrightarrow> detectLoginsOutsideBusinessHours tm_hour d [e] = [])"
proof -
  have eq: "detectLoginsOutsideBusinessHours tm_hour d es =
     map (\<lambda>e. outside_hours_event d e (tm_hour (timestamp e)))
       (filter (\<lambda>e. status e = SUCCESS \<and>
                  (tm_hour (timestamp e) < business_hour_start d
                   \<or> business_hour_end d \<le> tm_hour (timestamp e))) es)" for es
    using outside_hours_loop_eq [of tm_hour d es "[]"]
    by (simp add: detectLoginsOutsideBusinessHours_def outside_hours_def [abs_def])
  show ?thesis
    by (simp add: eq)
qed

theorem outside_hours_findings_witness:
  "detectLoginsOutsideBusinessHours utc_hour EventDetector_default
     [\<lparr>timestamp = 64800, username = ''bob'', ip_address = ''192.168.1.2'', status = SUCCESS\<rparr>,
      \<lparr>timestamp = 64799, username = ''eve'', ip_address = ''192.168.1.3'', status = SUCCESS\<rparr>,
      \<lparr>timestamp = 10800, username = ''alice'', ip_address = ''192.168.1.1'', status = FAILED\<rparr>,
      \<lparr>timestamp = 82800, username = ''dan'', ip_address = ''192.168.1.4'', status = UNKNOWN\<rparr>]
   = [outside_hours_event EventDetector_default
        \<lparr>timestamp = 64800, username = ''bob'', ip_address = ''192.168.1.2'', status = SUCCESS\<rparr> 18]
   \<and> detectLoginsOutsideBusinessHours utc_hour EventDetector_default
        [\<lparr>timestamp = 64800, username = ''bob'', ip_address = ''192.168.1.2'', status = SUCCESS\<rparr>]
     = [outside_hours_event EventDetector_default
        \<lparr>timestamp = 64800, username = ''bob'', ip_address = ''192.168.1.2'', status = SUCCESS\<rparr> 18]
   \<and> detectLoginsOutsideBusinessHours utc_hour EventDetector_default
        [\<lparr>timestamp = 64799, username = ''eve'', ip_address = ''192.168.1.3'', status = SUCCESS\<rparr>]
     = []
   \<and> detectLoginsOutsideBusinessHours utc_hour EventDetector_default
        [\<lparr>timestamp = 10800, username = ''alice'', ip_address = ''192.168.1.1'', status = FAILED\<rparr>]
     = []"
proof -
  let ?d = "EventDetector_default"
  let ?b = "\<lparr>timestamp = 64800, username = ''bob'', ip_address = ''192.168.1.2'', status = SUCCESS\<rparr>"
  let ?e = "\<lparr>timestamp = 64799, username = ''eve'', ip_address = ''192.168.1.3'', status = SUCCESS\<rparr>"
  let ?a = "\<lparr>timestamp = 10800, username = ''alice'', ip_address = ''192.168.1.1'', status = FAILED\<rparr>"
  let ?u = "\<lparr>timestamp = 82800, username = ''dan'', ip_address = ''192.168.1.4'', status = UNKNOWN\<rparr>"
  have cfg: "business_hour_start ?d = 8" "business_hour_end ?d = 18"
    by (simp_all add: EventDetector_default_def)
  have c1: "detectLoginsOutsideBusinessHours utc_hour ?d [?b, ?e, ?a, ?u] =
      [outside_hours_event ?d ?b 18]"
    using outside_hours_findings [of utc_hour ?d "[?b, ?e, ?a, ?u]", THEN conjunct1]
    by (simp add: cfg utc_hour_def)
  have c2: "detectLoginsOutsideBusinessHours utc_hour ?d [?b] = [outside_hours_event ?d ?b 18]"
    using outside_hours_findings [of utc_hour ?d _ ?b]
    by (simp add: cfg utc_hour_def)
  have c3: "detectLoginsOutsideBusinessHours utc_hour ?d [?e] = []"
    using outside_hours_findings [of utc_hour ?d _ ?e]
    by (simp add: cfg utc_hour_def)
  have c4: "detectLoginsOutsideBusinessHours utc_hour ?d [?a] = []"
    using outside_hours_findings [of utc_hour ?d _ ?a]
    by simp
  from c1 c2 c3 c4 show ?thesis by (intro conjI)
qed

section \<open>The combinator\<close>

lemma failed_findings_type:
  "e \<in> set (failed_findings d u xs i) \<Longrightarrow> ev_type e = MULTIPLE_FAILED_LOGINS"
  by (auto dest: failed_findings_cases)

lemma ip_findings_type:
  "e \<in> set (ip_findings d u xs i) \<Longrightarrow> ev_type e = MULTIPLE_IP_ADDRESSES"
  by (auto dest: ip_findings_cases)

lemma map_const_replicate: "(\<forall>x \<in> set xs. f x = c) \<Longrightarrow> map f xs = replicate (length xs) c"
  by (induction xs) simp_all

lemma detectMultipleFailedLogins_types:
  "detectMultipleFailedLogins std_sort d entries = Inr evs \<Longrightarrow>
   map ev_type evs = replicate (length evs) MULTIPLE_FAILED_LOGINS"
  by (rule map_const_replicate)
    (auto simp: detectMultipleFailedLogins_Inr dest: failed_findings_type)

lemma detectMultipleIPAddresses_types:
  "detectMultipleIPAddresses std_sort d entries = Inr evs \<Longrightarrow>
   map ev_type evs = replicate (length evs) MULTIPLE_IP_ADDRESSES"
  by (rule map_const_replicate)
    (auto simp: detectMultipleIPAddresses_Inr dest: ip_findings_type)

lemma detectLoginsOutsideBusinessHours_eq:
  "detectLoginsOutsideBusinessHours tm_hour d entries =
     map (\<lambda>e. outside_hours_event d e (tm_hour (timestamp e)))
       (filter (outside_hours tm_hour d) entries)"
  using outside_hours_loop_eq [of tm_hour d entries "[]"]
  by (simp add: detectLoginsOutsideBusinessHours_def)

lemma detectLoginsOutsideBusinessHours_types:
  "map ev_type (detectLoginsOutsideBusinessHours tm_hour d entries) =
     replicate (length (detectLoginsOutsideBusinessHours tm_hour d entries))
       LOGIN_OUTSIDE_BUSINESS_HOURS"
  by (rule map_const_replicate) (auto simp: detectLoginsOutsideBusinessHours_eq)

text \<open>
  Claim C8. \<open>detectAll\<close> returns the findings of the failed-login detector, then those
  of the after-hours detector, then those of the multi-address detector, each computed
  from the same entries. Its length is the sum of the three lengths, and the kinds of
  its findings are three blocks in that order.
\<close>

theorem detectAll_concatenation:
  "\<exists>failed_logins multiple_ips all_events.
      detectMultipleFailedLogins std_sort d entries = Inr failed_logins
    \<and> detectMultipleIPAddresses std_sort d entries = Inr multiple_ips
    \<and> detectAll tm_hour std_sort d entries = Inr all_events
    \<and> all_events =
        failed_logins @ detectLoginsOutsideBusinessHours tm_hour d entries @ multiple_ips
    \<and> length all_events =
        length failed_logins + length (detectLoginsOutsideBusinessHours tm_hour d entries)
        + length multiple_ips
    \<and> map ev_type all_events =
        replicate (length failed_logins) MULTIPLE_FAILED_LOGINS
        @ replicate (length (detectLoginsOutsideBusinessHours tm_hour d entries))
            LOGIN_OUTSIDE_BUSINESS_HOURS
        @ replicate (length multiple_ips) MULTIPLE_IP_ADDRESSES"
proof -
  obtain a where a: "detectMultipleFailedLogins std_sort d entries = Inr a"
    by (simp add: detectMultipleFailedLogins_Inr)
  obtain c where c: "detectMultipleIPAddresses std_sort d entries = Inr c"
    by (simp add: detectMultipleIPAddresses_Inr)
  let ?b = "detectLoginsOutsideBusinessHours tm_hour d entries"
  have all: "detectAll tm_hour std_sort d entries = Inr (a @ ?b @ c)"
    by (simp add: detectAll_def a c)
  have types: "map ev_type (a @ ?b @ c) =
        replicate (length a) MULTIPLE_FAILED_LOGINS
        @ replicate (length ?b) LOGIN_OUTSIDE_BUSINESS_HOURS
        @ replicate (length c) MULTIPLE_IP_ADDRESSES"
    using detectMultipleFailedLogins_types [OF a] detectMultipleIPAddresses_types [OF c]
      detectLoginsOutsideBusinessHours_types [of tm_hour d entries]
    by simp
  have len: "length (a @ ?b @ c) = length a + length ?b + length c" by simp
  from a c all types len show ?thesis by blast
qed

theorem detectAll_concatenation_witness:
  "map ev_type
     (projr (detectAll utc_hour (sort_key timestamp) EventDetector_default all_kinds_entries))
   = [MULTIPLE_FAILED_LOGINS, LOGIN_OUTSIDE_BUSINESS_HOURS, MULTIPLE_IP_ADDRESSES]
   \<and> length (projr (detectAll utc_hour (sort_key timestamp) EventDetector_default
        all_kinds_entries)) = 3"
proof -
  let ?d = "EventDetector_default"
  have a: "detectMultipleFailedLogins (sort_key timestamp) ?d all_kinds_entries =
      Inr [failed_event ?d ''alice''
             \<lparr>timestamp = 36000, username = ''alice'', ip_address = ''192.168.1.1'', status = FAILED\<rparr>
             \<lparr>timestamp = 36240, username = ''alice'', ip_address = ''192.168.1.1'', status = FAILED\<rparr>
             5]"
    by (simp add: detectMultipleFailedLogins_def all_kinds_entries_def burst_def
        EventDetector_default_def failed_loop.simps scan_failed.simps isWithinTimeWindow_def
        time_point_minus_def time_since_epoch_count_def int64_wrap_def
        duration_cast_minutes_def vector_at_def)
  have b: "length (detectLoginsOutsideBusinessHours utc_hour ?d all_kinds_entries) = 1"
    by (simp add: detectLoginsOutsideBusinessHours_def all_kinds_entries_def burst_def
        EventDetector_default_def getHourOfDay_def utc_hour_def)
  have c: "detectMultipleIPAddresses (sort_key timestamp) ?d all_kinds_entries =
      Inr [ip_event ?d ''charlie''
             \<lparr>timestamp = 50400, username = ''charlie'', ip_address = ''172.16.0.1'', status = SUCCESS\<rparr>
             \<lparr>timestamp = 50700, username = ''charlie'', ip_address = ''172.16.0.2'', status = SUCCESS\<rparr>
             [''172.16.0.1'', ''172.16.0.2'']]"
    by (simp add: detectMultipleIPAddresses_def all_kinds_entries_def burst_def
        EventDetector_default_def ip_loop.simps scan_ips.simps isWithinTimeWindow_def
        time_point_minus_def time_since_epoch_count_def int64_wrap_def
        duration_cast_minutes_def vector_at_def)
  from detectAll_concatenation [of "sort_key timestamp" ?d all_kinds_entries utc_hour]
  obtain fl mi al where
      f1: "detectMultipleFailedLogins (sort_key timestamp) ?d all_kinds_entries = Inr fl"
      and f2: "detectMultipleIPAddresses (sort_key timestamp) ?d all_kinds_entries = Inr mi"
      and f3: "detectAll utc_hour (sort_key timestamp) ?d all_kinds_entries = Inr al"
      and f4: "length al = length fl
          + length (detectLoginsOutsideBusinessHours utc_hour ?d all_kinds_entries)
          + length mi"
      and f5: "map ev_type al =
        replicate (length fl) MULTIPLE_FAILED_LOGINS
        @ replicate (length (detectLoginsOutsideBusinessHours utc_hour ?d all_kinds_entries))
            LOGIN_OUTSIDE_BUSINESS_HOURS
        @ replicate (length mi) MULTIPLE_IP_ADDRESSES"
    by blast
  have lfl: "length fl = 1" using f1 a by auto
  have lmi: "length mi = 1" using f2 c by auto
  have "map ev_type al =
      [MULTIPLE_FAILED_LOGINS, LOGIN_OUTSIDE_BUSINESS_HOURS, MULTIPLE_IP_ADDRESSES]"
    using f5 by (simp add: lfl lmi b)
  moreover have "length al = 3" using f4 by (simp add: lfl lmi b)
  ultimately show ?thesis by (simp add: f3)
qed

section \<open>Termination without faults\<close>

text \<open>
  Claim C9. The detectors are total functions of the model: every loop is a recursive
  function whose termination is proved where it is defined. For a valid configuration
  and any list of entries, the two window detectors and \<open>detectAll\<close> return \<open>Inr\<close>, so no
  read of a vector is out of range; the after-hours detector has no such read and returns
  at most one finding per entry. On the empty list each of the four returns the empty
  list.
\<close>

theorem detectors_return:
  assumes "validateConfiguration d"
  shows "(\<exists>evs. detectMultipleFailedLogins std_sort d entries = Inr evs)
     \<and> length (detectLoginsOutsideBusinessHours tm_hour d entries) \<le> length entries
     \<and> (\<exists>evs. detectMultipleIPAddresses std_sort d entries = Inr evs)
     \<and> (\<exists>evs. detectAll tm_hour std_sort d entries = Inr evs)
     \<and> detectMultipleFailedLogins std_sort d [] = Inr []
     \<and> detectLoginsOutsideBusinessHours tm_hour d [] = []
     \<and> detectMultipleIPAddresses std_sort d [] = Inr []
     \<and> detectAll tm_hour std_sort d [] = Inr []"
proof -
  have a: "\<exists>evs. detectMultipleFailedLogins std_sort d entries = Inr evs"
    by (simp add: detectMultipleFailedLogins_Inr)
  have b: "length (detectLoginsOutsideBusinessHours tm_hour d entries) \<le> length entries"
    by (simp add: detectLoginsOutsideBusinessHours_eq)
  have c: "\<exists>evs. detectMultipleIPAddresses std_sort d entries = Inr evs"
    by (simp add: detectMultipleIPAddresses_Inr)
  have e: "\<exists>evs. detectAll tm_hour std_sort d entries = Inr evs"
    by (simp add: detectAll_def detectMultipleFailedLogins_Inr detectMultipleIPAddresses_Inr)
  have a0: "detectMultipleFailedLogins std_sort d [] = Inr []"
    by (simp add: detectMultipleFailedLogins_def)
  have b0: "detectLoginsOutsideBusinessHours tm_hour d [] = []"
    by (simp add: detectLoginsOutsideBusinessHours_def)
  have c0: "detectMultipleIPAddresses std_sort d [] = Inr []"
    by (simp add: detectMultipleIPAddresses_def)
  have e0: "detectAll tm_hour std_sort d [] = Inr []"
    by (simp add: detectAll_def a0 b0 c0)
  from a b c e a0 b0 c0 e0 show ?thesis by (intro conjI)
qed

theorem detectors_return_witness:
  "validateConfiguration EventDetector_default
   \<and> (\<exists>evs. detectMultipleFailedLogins (sort_key timestamp) EventDetector_default
          all_kinds_entries = Inr evs)
   \<and> length (detectLoginsOutsideBusinessHours utc_hour EventDetector_default all_kinds_entries)
       \<le> length all_kinds_entries
   \<and> (\<exists>evs. detectMultipleIPAddresses (sort_key timestamp) EventDetector_default
          all_kinds_entries = Inr evs)
   \<and> (\<exists>evs. detectAll utc_hour (sort_key timestamp) EventDetector_default
          all_kinds_entries = Inr evs)
   \<and> detectMultipleFailedLogins (sort_key timestamp) EventDetector_default [] = Inr []
   \<and> detectLoginsOutsideBusinessHours utc_hour EventDetector_default [] = []
   \<and> detectMultipleIPAddresses (sort_key timestamp) EventDetector_default [] = Inr []
   \<and> detectAll utc_hour (sort_key timestamp) EventDetector_default [] = Inr []"
proof -
  have v: "validateConfiguration EventDetector_default"
    by (simp add: validateConfiguration_def EventDetector_default_def)
  from detectors_return [OF v, of "sort_key timestamp" all_kinds_entries utc_hour] v
  show ?thesis by (intro conjI) blast+
qed

end
